theory Spec2Isabelle
  imports Main "HOL-Library.AList" "HOL-Library.Sublist"
begin

section \<open>The listener registry shared by the three dispatchers\<close>

text \<open>
  \<open>SimpleEventDispatcher\<close>, \<open>NodeEventDispatcher\<close> and \<open>BrowserEventDispatcher\<close> each
  declare the same two fields, \<open>listeners: Map<string, Array<{listener, priority}>>\<close> and
  \<open>sorted: Map<string, boolean>\<close>, and the same bodies for \<open>addListener\<close>,
  \<open>removeListener\<close>, \<open>getListeners\<close>, \<open>getListenerPriority\<close>, \<open>hasListeners\<close> and
  \<open>sortListeners\<close>; they differ in \<open>dispatch\<close> and in calls to the native event bus
  (\<open>EventEmitter\<close>, \<open>EventTarget\<close>). The bus is not code of the repository: what it does
  with an event is a parameter of the two dispatchers that call it.

  A function object is modelled by its reference (a natural number): \<open>===\<close> on listeners
  is equality of references. A JavaScript \<open>Map\<close> is an association list in insertion
  order: \<open>Map.set\<close> is \<open>AList.update\<close> (in place for a present key, at the end for a new
  one), \<open>Map.delete\<close> is \<open>AList.delete\<close>, \<open>Map.get\<close> is \<open>map_of\<close>, and mutating the
  array stored under a key is \<open>AList.map_entry\<close>. Priorities are integers.
\<close>

type_synonym listener = nat

record entry =
  listener :: listener
  priority :: int

text \<open>
  The fields of a dispatcher. \<open>sorted_flag\<close> is the field \<open>sorted\<close> of the source.
  \<open>subscriberListeners\<close> is the \<open>WeakMap\<close> of \<open>AbstractEventDispatcher\<close>, keyed by the
  reference of the subscriber. \<open>allocated\<close> is the allocation counter of the runtime:
  the reference that the next \<open>Function.prototype.bind\<close> returns.
\<close>

record dispatcher =
  listeners :: "(string \<times> entry list) list"
  sorted_flag :: "(string \<times> bool) list"
  subscriberListeners :: "(nat \<times> (string \<times> listener) list) list"
  allocated :: nat

definition new_dispatcher :: dispatcher where
  "new_dispatcher =
     \<lparr>listeners = [], sorted_flag = [], subscriberListeners = [], allocated = 0\<rparr>"

text \<open>
  An optional name \<open>eventName?: string | null\<close> is a \<open>string option\<close>. The test
  \<open>if (eventName)\<close> is false for an omitted name, for \<open>null\<close> and for the empty string.
\<close>

text \<open>\<open>Array.prototype.findIndex\<close>: the first index whose element satisfies the
  predicate, \<open>-1\<close> when there is none.\<close>

fun findIndex :: "('a \<Rightarrow> bool) \<Rightarrow> 'a list \<Rightarrow> int" where
  "findIndex P [] = - 1"
| "findIndex P (x # xs) =
     (if P x then 0
      else (let i = findIndex P xs in if i = - 1 then - 1 else i + 1))"

text \<open>\<open>xs.splice(index, 1)\<close> for an index that \<open>findIndex\<close> returned.\<close>

definition splice1 :: "int \<Rightarrow> 'a list \<Rightarrow> 'a list" where
  "splice1 index xs = take (nat index) xs @ drop (Suc (nat index)) xs"

text \<open>
  \<open>Array.prototype.sort(cmp)\<close>: ECMAScript requires the sort to be stable, and an element
  \<open>a\<close> stays in front of a later \<open>b\<close> unless \<open>cmp(a, b) > 0\<close>. Insertion from the right
  end is such a sort.
\<close>

fun insert_by :: "('a \<Rightarrow> 'a \<Rightarrow> int) \<Rightarrow> 'a \<Rightarrow> 'a list \<Rightarrow> 'a list" where
  "insert_by cmp x [] = [x]"
| "insert_by cmp x (y # ys) =
     (if cmp x y \<le> 0 then x # y # ys else y # insert_by cmp x ys)"

definition js_sort :: "('a \<Rightarrow> 'a \<Rightarrow> int) \<Rightarrow> 'a list \<Rightarrow> 'a list" where
  "js_sort cmp xs = foldr (insert_by cmp) xs []"

text \<open>The comparator of \<open>sortListeners\<close>: \<open>(a, b) => b.priority - a.priority\<close>.\<close>

definition by_priority :: "entry \<Rightarrow> entry \<Rightarrow> int" where
  "by_priority a b = priority b - priority a"

definition addListener :: "string \<Rightarrow> listener \<Rightarrow> int \<Rightarrow> dispatcher \<Rightarrow> dispatcher" where
  "addListener eventName l p d =
     (let d1 = (if map_of (listeners d) eventName = None
                then d\<lparr>listeners := AList.update eventName [] (listeners d)\<rparr>
                else d);
          d2 = d1\<lparr>listeners :=
                 AList.map_entry eventName
                   (\<lambda>es. es @ [\<lparr>listener = l, priority = p\<rparr>]) (listeners d1)\<rparr>
      in d2\<lparr>sorted_flag := AList.update eventName False (sorted_flag d2)\<rparr>)"

definition removeListener :: "string \<Rightarrow> listener \<Rightarrow> dispatcher \<Rightarrow> dispatcher" where
  "removeListener eventName l d =
     (case map_of (listeners d) eventName of
        None \<Rightarrow> d
      | Some eventListeners \<Rightarrow>
          (let index = findIndex (\<lambda>item. listener item = l) eventListeners;
               d1 = (if index \<noteq> - 1
                     then d\<lparr>listeners :=
                            AList.map_entry eventName (splice1 index) (listeners d)\<rparr>
                     else d);
               eventListeners' = (if index \<noteq> - 1 then splice1 index eventListeners
                                  else eventListeners)
           in if length eventListeners' = 0
              then d1\<lparr>listeners := AList.delete eventName (listeners d1),
                      sorted_flag := AList.delete eventName (sorted_flag d1)\<rparr>
              else d1))"

definition sortListeners :: "string \<Rightarrow> dispatcher \<Rightarrow> dispatcher" where
  "sortListeners eventName d =
     d\<lparr>listeners := AList.map_entry eventName (js_sort by_priority) (listeners d),
       sorted_flag := AList.update eventName True (sorted_flag d)\<rparr>"

text \<open>The test \<open>!this.sorted.get(eventName)\<close> of \<open>getListeners\<close>: the flag is absent or
  \<open>false\<close>.\<close>

definition needs_resort :: "string \<Rightarrow> dispatcher \<Rightarrow> bool" where
  "needs_resort eventName d = (map_of (sorted_flag d) eventName \<noteq> Some True)"

definition getListenerPriority :: "string \<Rightarrow> listener \<Rightarrow> dispatcher \<Rightarrow> int option" where
  "getListenerPriority eventName l d =
     (case map_of (listeners d) eventName of
        None \<Rightarrow> None
      | Some es \<Rightarrow>
          (case find (\<lambda>item. listener item = l) es of
             Some found \<Rightarrow> Some (priority found)
           | None \<Rightarrow> None))"

definition hasListeners :: "string option \<Rightarrow> dispatcher \<Rightarrow> bool" where
  "hasListeners eventName d =
     (case eventName of
        Some name \<Rightarrow>
          (if name \<noteq> []
           then (case map_of (listeners d) name of
                   None \<Rightarrow> False
                 | Some es \<Rightarrow> 0 < length es)
           else listeners d \<noteq> [])
      | None \<Rightarrow> listeners d \<noteq> [])"

text \<open>
  What \<open>getListeners\<close> returns: an array of listeners for a name, or a \<open>Map\<close> from every
  name to what \<open>getListeners(name)\<close> returned for it.
\<close>

datatype listeners_result =
  Array "listener list"
| AllListeners "(string \<times> listeners_result) list"

text \<open>The loop \<open>for (const [name] of this.listeners) allListeners.set(name, g(name))\<close>,
  where \<open>g\<close> is the recursive call; \<open>None\<close> when a call does not return.\<close>

fun collect ::
  "(string \<Rightarrow> dispatcher \<Rightarrow> (listeners_result \<times> dispatcher) option) \<Rightarrow> string list \<Rightarrow>
   (string \<times> listeners_result) list \<Rightarrow> dispatcher \<Rightarrow>
   ((string \<times> listeners_result) list \<times> dispatcher) option" where
  "collect g [] allListeners d = Some (allListeners, d)"
| "collect g (name # names) allListeners d =
     (case g name d of
        None \<Rightarrow> None
      | Some (r, d') \<Rightarrow> collect g names (AList.update name r allListeners) d')"

text \<open>
  \<open>getListeners\<close> calls itself once per registered name when no name is given. The
  first argument bounds the depth of these calls: \<open>None\<close> is a call that needs more
  depth than that, and a call that is \<open>None\<close> at every depth never returns (in the
  source it ends in a stack overflow).
\<close>

fun getListeners ::
  "nat \<Rightarrow> string option \<Rightarrow> dispatcher \<Rightarrow> (listeners_result \<times> dispatcher) option" where
  "getListeners 0 eventName d = None"
| "getListeners (Suc n) eventName d =
     (case eventName of
        Some name \<Rightarrow>
          (if name \<noteq> []
           then (if map_of (listeners d) name = None then Some (Array [], d)
                 else (let d' = (if needs_resort name d then sortListeners name d else d)
                       in Some (Array (map listener
                                  (case map_of (listeners d') name of
                                     Some es \<Rightarrow> es | None \<Rightarrow> [])), d')))
           else map_option (\<lambda>(allListeners, d'). (AllListeners allListeners, d'))
                  (collect (\<lambda>name. getListeners n (Some name))
                     (map fst (listeners d)) [] d))
      | None \<Rightarrow>
          map_option (\<lambda>(allListeners, d'). (AllListeners allListeners, d'))
            (collect (\<lambda>name. getListeners n (Some name)) (map fst (listeners d)) [] d))"

section \<open>Subscribers\<close>

text \<open>
  \<open>getSubscribedEvents()\<close> returns a record from event names to a method name or to
  \<open>{listener, priority?}\<close>; \<open>entries\<close> is \<open>Object.entries\<close> of it. \<open>methods\<close> are the
  names under which the subscriber object has a method, and \<open>ref\<close> is its reference.
\<close>

datatype params = MethodName string | Descriptor string "int option"

record subscriber =
  ref :: nat
  entries :: "(string \<times> params) list"
  methods :: "string list"

datatype exn = Error string | TypeError

datatype 'a outcome = Returned 'a | Threw exn

text \<open>
  The loop of \<open>addSubscriber\<close>. \<open>(subscriber as any)[listenerName].bind(subscriber)\<close>
  throws a \<open>TypeError\<close> when the subscriber has no such method; otherwise \<open>bind\<close> returns a
  new function object. The state reached when the exception leaves is returned with it.
\<close>

fun addSubscriber_loop ::
  "subscriber \<Rightarrow> (string \<times> params) list \<Rightarrow> (string \<times> listener) list \<Rightarrow> dispatcher \<Rightarrow>
   unit outcome \<times> (string \<times> listener) list \<times> dispatcher" where
  "addSubscriber_loop s [] boundListeners d = (Returned (), boundListeners, d)"
| "addSubscriber_loop s ((eventName, ps) # rest) boundListeners d =
     (let listenerName = (case ps of MethodName m \<Rightarrow> m | Descriptor m _ \<Rightarrow> m);
          p = (case ps of
                 MethodName _ \<Rightarrow> 0
               | Descriptor _ q \<Rightarrow> (case q of None \<Rightarrow> 0 | Some v \<Rightarrow> v))
      in if listenerName \<notin> set (methods s) then (Threw TypeError, boundListeners, d)
         else (let boundListener = allocated d;
                   d1 = d\<lparr>allocated := Suc (allocated d)\<rparr>
               in addSubscriber_loop s rest
                    (AList.update eventName boundListener boundListeners)
                    (addListener eventName boundListener p d1)))"

definition addSubscriber :: "subscriber \<Rightarrow> dispatcher \<Rightarrow> unit outcome \<times> dispatcher" where
  "addSubscriber s d =
     (case addSubscriber_loop s (entries s) [] d of
        (Threw x, boundListeners, d') \<Rightarrow> (Threw x, d')
      | (Returned u, boundListeners, d') \<Rightarrow>
          (Returned (),
           d'\<lparr>subscriberListeners :=
                AList.update (ref s) boundListeners (subscriberListeners d')\<rparr>))"

definition removeSubscriber :: "subscriber \<Rightarrow> dispatcher \<Rightarrow> dispatcher" where
  "removeSubscriber s d =
     (case map_of (subscriberListeners d) (ref s) of
        None \<Rightarrow> d
      | Some boundListeners \<Rightarrow>
          (let d1 = fold (\<lambda>(eventName, boundListener). removeListener eventName boundListener)
                      boundListeners d
           in d1\<lparr>subscriberListeners := AList.delete (ref s) (subscriberListeners d1)\<rparr>))"

section \<open>Events, listener bodies and dispatch\<close>

text \<open>
  An event object: the name of its constructor, whether it has a method
  \<open>isPropagationStopped\<close> (\<open>isStoppableEvent\<close>), and the field of \<open>BaseEvent\<close> that this
  method returns and \<open>stopPropagation()\<close> sets.
\<close>

record event =
  constructor_name :: string
  stoppable :: bool
  propagationStopped :: bool

text \<open>
  What the body of a listener does when called with an event in a given state: whether
  it calls \<open>stopPropagation()\<close>, and how the call ends. The bodies are a parameter of
  dispatch; they do not call back into the dispatcher.
\<close>

datatype completion = Returns | ReturnsPromise | Throws exn

record effect =
  stops :: bool
  completion :: completion

type_synonym bodies = "listener \<Rightarrow> event \<Rightarrow> effect"

text \<open>
  The values \<open>for (const listener of listeners)\<close> yields: the functions of an array, or
  the \<open>[name, value]\<close> pairs of a \<open>Map\<close>. Calling a pair throws a \<open>TypeError\<close>.
\<close>

datatype item = Fn listener | MapEntry string listeners_result

fun items :: "listeners_result \<Rightarrow> item list" where
  "items (Array ls) = map Fn ls"
| "items (AllListeners m) = map (\<lambda>(name, r). MapEntry name r) m"

fun call :: "bodies \<Rightarrow> item \<Rightarrow> event \<Rightarrow> effect" where
  "call B (Fn l) e = B l e"
| "call B (MapEntry name r) e = \<lparr>stops = False, completion = Throws TypeError\<rparr>"

text \<open>
  The state a dispatch runs in: the dispatcher, the event objects by reference, the log
  of the calls \<open>listener(event)\<close> made so far, and what was written with
  \<open>console.error\<close> and \<open>console.log\<close>.
\<close>

record world =
  disp :: dispatcher
  heap :: "nat \<Rightarrow> event"
  calls :: "item list"
  console_error :: "(string \<times> exn) list"
  console_log :: "string list"

text \<open>The call \<open>listener(event)\<close>.\<close>

definition invoke :: "bodies \<Rightarrow> item \<Rightarrow> nat \<Rightarrow> world \<Rightarrow> completion \<times> world" where
  "invoke B l ev w =
     (let e = heap w ev; eff = call B l e
      in (completion eff,
          w\<lparr>heap := (heap w)(ev := e\<lparr>propagationStopped := propagationStopped e \<or> stops eff\<rparr>),
            calls := calls w @ [l]\<rparr>))"

text \<open>\<open>SimpleEventDispatcher.doDispatch\<close>: no \<open>try\<close> around the call.\<close>

fun doDispatch_loop :: "bodies \<Rightarrow> item list \<Rightarrow> nat \<Rightarrow> world \<Rightarrow> unit outcome \<times> world" where
  "doDispatch_loop B [] ev w = (Returned (), w)"
| "doDispatch_loop B (l # ls) ev w =
     (if stoppable (heap w ev) \<and> propagationStopped (heap w ev) then (Returned (), w)
      else (case invoke B l ev w of
              (Throws x, w1) \<Rightarrow> (Threw x, w1)
            | (_, w1) \<Rightarrow> doDispatch_loop B ls ev w1))"

definition doDispatch ::
  "bodies \<Rightarrow> item list \<Rightarrow> string \<Rightarrow> nat \<Rightarrow> world \<Rightarrow> unit outcome \<times> world" where
  "doDispatch B ls eventName ev w =
     (case doDispatch_loop B ls ev w of
        (Threw x, w') \<Rightarrow> (Threw x, w')
      | (Returned u, w') \<Rightarrow> (Returned (), w'\<lparr>console_log := console_log w' @ [eventName]\<rparr>))"

text \<open>\<open>eventName ?? event.constructor.name\<close>.\<close>

definition resolve :: "string option \<Rightarrow> event \<Rightarrow> string" where
  "resolve eventName e = (case eventName of Some s \<Rightarrow> s | None \<Rightarrow> constructor_name e)"

text \<open>
  \<open>SimpleEventDispatcher.dispatch\<close>. The result is \<open>None\<close> when \<open>getListeners\<close> does not
  return within the given depth, else how the call ends (returning a reference, or
  throwing) and the state it leaves.
\<close>

definition simple_dispatch ::
  "nat \<Rightarrow> bodies \<Rightarrow> nat \<Rightarrow> string option \<Rightarrow> world \<Rightarrow> (nat outcome \<times> world) option" where
  "simple_dispatch fuel B ev eventName w =
     (let name = resolve eventName (heap w ev)
      in if \<not> hasListeners (Some name) (disp w) then Some (Returned ev, w)
         else (case getListeners fuel (Some name) (disp w) of
                 None \<Rightarrow> None
               | Some (ls, d') \<Rightarrow>
                   (case doDispatch B (items ls) name ev (w\<lparr>disp := d'\<rparr>) of
                      (Threw x, w') \<Rightarrow> Some (Threw x, w')
                    | (Returned u, w') \<Rightarrow> Some (Returned ev, w'))))"

text \<open>
  The native event bus. \<open>NodeEventDispatcher.dispatch\<close> starts with
  \<open>this.emitter.emit(name, event)\<close> and \<open>BrowserEventDispatcher.dispatch\<close> with
  \<open>this.eventTarget.dispatchEvent(customEvent)\<close>, both outside any \<open>try\<close>. Neither
  dispatcher attaches its own listeners to the bus: the bus holds what was attached
  through \<open>getEmitter()\<close> or \<open>getEventTarget()\<close>. A bus is given by what its call does for
  a name and an event: whether the event is stopped by it, and how the call ends.
\<close>

type_synonym native_bus = "string \<Rightarrow> event \<Rightarrow> effect"

definition notify :: "native_bus \<Rightarrow> string \<Rightarrow> nat \<Rightarrow> world \<Rightarrow> completion \<times> world" where
  "notify bus name ev w =
     (let e = heap w ev; eff = bus name e
      in (completion eff,
          w\<lparr>heap := (heap w)(ev := e\<lparr>propagationStopped := propagationStopped e \<or> stops eff\<rparr>)\<rparr>))"

text \<open>
  An \<open>EventEmitter\<close> of Node with no listener attached, as \<open>new EventEmitter()\<close> of the
  constructor leaves it: \<open>emit\<close> of the name \<open>error\<close> throws, \<open>emit\<close> of any other name
  returns. An \<open>EventTarget\<close> with no listener attached: \<open>dispatchEvent\<close> returns.
\<close>

definition unused_emitter :: native_bus where
  "unused_emitter name e =
     \<lparr>stops = False,
      completion = (if name = ''error'' then Throws (Error ''ERR_UNHANDLED_ERROR'') else Returns)\<rparr>"

definition unused_target :: native_bus where
  "unused_target name e = \<lparr>stops = False, completion = Returns\<rparr>"

text \<open>The loop of \<open>NodeEventDispatcher.dispatch\<close>: the call is inside \<open>try\<close>, a returned
  promise gets a \<open>catch\<close> handler (nothing happens before the dispatch returns).\<close>

fun node_loop :: "bodies \<Rightarrow> item list \<Rightarrow> string \<Rightarrow> bool \<Rightarrow> nat \<Rightarrow> world \<Rightarrow> world" where
  "node_loop B [] name isStoppable ev w = w"
| "node_loop B (l # ls) name isStoppable ev w =
     (if isStoppable \<and> propagationStopped (heap w ev) then w
      else (case invoke B l ev w of
              (Throws error, w1) \<Rightarrow>
                node_loop B ls name isStoppable ev
                  (w1\<lparr>console_error := console_error w1 @ [(name, error)]\<rparr>)
            | (ReturnsPromise, w1) \<Rightarrow> node_loop B ls name isStoppable ev w1
            | (Returns, w1) \<Rightarrow> node_loop B ls name isStoppable ev w1))"

text \<open>\<open>NodeEventDispatcher.dispatch\<close>: an exception of \<open>emit\<close> leaves the dispatch.\<close>

definition node_dispatch ::
  "native_bus \<Rightarrow> nat \<Rightarrow> bodies \<Rightarrow> nat \<Rightarrow> string option \<Rightarrow> world \<Rightarrow>
   (nat outcome \<times> world) option" where
  "node_dispatch emit fuel B ev eventName w =
     (let name = resolve eventName (heap w ev)
      in (case notify emit name ev w of
            (Throws x, w0) \<Rightarrow> Some (Threw x, w0)
          | (_, w0) \<Rightarrow>
              (if \<not> hasListeners (Some name) (disp w0) then Some (Returned ev, w0)
               else (case getListeners fuel (Some name) (disp w0) of
                       None \<Rightarrow> None
                     | Some (sortedListeners, d') \<Rightarrow>
                         (let isStoppable = stoppable (heap w0 ev)
                          in Some (Returned ev,
                               node_loop B (items sortedListeners) name isStoppable ev
                                 (w0\<lparr>disp := d'\<rparr>)))))))"

text \<open>The loop of \<open>BrowserEventDispatcher.dispatch\<close>: the call is inside \<open>try\<close>.\<close>

fun browser_loop :: "bodies \<Rightarrow> item list \<Rightarrow> string \<Rightarrow> bool \<Rightarrow> nat \<Rightarrow> world \<Rightarrow> world" where
  "browser_loop B [] name isStoppable ev w = w"
| "browser_loop B (l # ls) name isStoppable ev w =
     (if isStoppable \<and> propagationStopped (heap w ev) then w
      else (case invoke B l ev w of
              (Throws error, w1) \<Rightarrow>
                browser_loop B ls name isStoppable ev
                  (w1\<lparr>console_error := console_error w1 @ [(name, error)]\<rparr>)
            | (_, w1) \<Rightarrow> browser_loop B ls name isStoppable ev w1))"

text \<open>\<open>BrowserEventDispatcher.dispatch\<close>: an exception of \<open>dispatchEvent\<close> leaves the
  dispatch.\<close>

definition browser_dispatch ::
  "native_bus \<Rightarrow> nat \<Rightarrow> bodies \<Rightarrow> nat \<Rightarrow> string option \<Rightarrow> world \<Rightarrow>
   (nat outcome \<times> world) option" where
  "browser_dispatch dispatchEvent fuel B ev eventName w =
     (let name = resolve eventName (heap w ev)
      in (case notify dispatchEvent name ev w of
            (Throws x, w0) \<Rightarrow> Some (Threw x, w0)
          | (_, w0) \<Rightarrow>
              (if \<not> hasListeners (Some name) (disp w0) then Some (Returned ev, w0)
               else (let isStoppable = stoppable (heap w0 ev)
                     in (case getListeners fuel (Some name) (disp w0) of
                           None \<Rightarrow> None
                         | Some (sortedListeners, d') \<Rightarrow>
                             Some (Returned ev,
                               browser_loop B (items sortedListeners) name isStoppable ev
                                 (w0\<lparr>disp := d'\<rparr>)))))))"

section \<open>Invariant of the registry\<close>

text \<open>No name is stored with an empty array: \<open>addListener\<close> pushes right after creating
  the array and \<open>removeListener\<close> deletes a name whose array became empty.\<close>

definition wf :: "dispatcher \<Rightarrow> bool" where
  "wf d = list_all (\<lambda>(name, es). es \<noteq> []) (listeners d)"

text \<open>Every registered listener is a function that exists already: its reference is
  below the allocation counter, so \<open>bind\<close> never returns it.\<close>

definition fresh :: "dispatcher \<Rightarrow> bool" where
  "fresh d =
     list_all (\<lambda>(name, es). list_all (\<lambda>item. listener item < allocated d) es) (listeners d)"

text \<open>The array \<open>removeListener\<close> leaves for a name: the first entry that holds the
  listener is spliced out, if there is one.\<close>

definition removed :: "listener \<Rightarrow> entry list \<Rightarrow> entry list" where
  "removed l es = (let index = findIndex (\<lambda>item. listener item = l) es
                   in if index \<noteq> - 1 then splice1 index es else es)"

text \<open>The array registered under a name, empty when the name is not registered.\<close>

definition registered :: "string \<Rightarrow> dispatcher \<Rightarrow> entry list" where
  "registered eventName d = (case map_of (listeners d) eventName of None \<Rightarrow> [] | Some es \<Rightarrow> es)"

text \<open>The dispatcher after \<open>getListeners(name)\<close> for a non-empty name.\<close>

definition looked_up :: "string \<Rightarrow> dispatcher \<Rightarrow> dispatcher" where
  "looked_up name d =
     (if map_of (listeners d) name \<noteq> None \<and> needs_resort name d then sortListeners name d
      else d)"

section \<open>Lemmas on the list operations\<close>

lemma findIndex_ge: "- 1 \<le> findIndex P xs"
  by (induction xs) (auto simp: Let_def)

lemma findIndex_none: "findIndex P xs = - 1 \<longleftrightarrow> (\<forall>x \<in> set xs. \<not> P x)"
proof (induction xs)
  case Nil
  then show ?case by simp
next
  case (Cons x xs)
  have "- 1 \<le> findIndex P xs" by (rule findIndex_ge)
  then have "findIndex P xs + 1 \<noteq> - 1" by arith
  with Cons show ?case by (simp add: Let_def)
qed

lemma find_none_findIndex: "find P xs = None \<longleftrightarrow> findIndex P xs = - 1"
  by (auto simp: findIndex_none find_None_iff)

lemma find_listener_None:
  "find (\<lambda>item. listener item = l) es = None \<longleftrightarrow> l \<notin> listener ` set es"
  by (auto simp: find_None_iff)

lemma map_of_wf: "wf d \<Longrightarrow> map_of (listeners d) name = Some es \<Longrightarrow> es \<noteq> []"
  unfolding wf_def list_all_iff by (auto dest: map_of_SomeD)

section \<open>Lemmas on the registry operations\<close>

declare getListeners.simps(2) [simp del]

lemma listeners_addListener:
  "map_of (listeners (addListener n l p d)) =
     (map_of (listeners d))(n \<mapsto> registered n d @ [\<lparr>listener = l, priority = p\<rparr>])"
  by (auto simp: addListener_def Let_def map_of_map_entry update_conv' registered_def fun_eq_iff
      split: option.splits)

lemma sorted_flag_addListener:
  "map_of (sorted_flag (addListener n l p d)) = (map_of (sorted_flag d))(n \<mapsto> False)"
  by (simp add: addListener_def Let_def update_conv')

lemma others_addListener [simp]:
  "subscriberListeners (addListener n l p d) = subscriberListeners d"
  "allocated (addListener n l p d) = allocated d"
  by (simp_all add: addListener_def Let_def)

lemma listeners_removeListener:
  "map_of (listeners (removeListener n l d)) =
     (case map_of (listeners d) n of
        None \<Rightarrow> map_of (listeners d)
      | Some es \<Rightarrow> (if removed l es = [] then (map_of (listeners d))(n := None)
                    else (map_of (listeners d))(n \<mapsto> removed l es)))"
  by (auto simp: removeListener_def Let_def map_of_map_entry delete_conv' removed_def fun_eq_iff
      split: option.splits)


lemma others_removeListener [simp]:
  "subscriberListeners (removeListener n l d) = subscriberListeners d"
  "allocated (removeListener n l d) = allocated d"
  by (simp_all add: removeListener_def Let_def split: option.splits)

lemma list_all_update:
  "list_all P al \<Longrightarrow> P (k, v) \<Longrightarrow> list_all P (AList.update k v al)"
  by (induction al) auto

lemma list_all_map_entry:
  "list_all P al \<Longrightarrow> (\<And>v. map_of al k = Some v \<Longrightarrow> P (k, v) \<Longrightarrow> P (k, f v)) \<Longrightarrow>
   list_all P (AList.map_entry k f al)"
  by (induction al) auto

lemma list_all_delete: "list_all P al \<Longrightarrow> list_all P (AList.delete k al)"
  by (induction al) auto

lemma delete_map_entry: "AList.delete k (AList.map_entry k f al) = AList.delete k al"
  by (induction al) auto

lemma keys_map_entry: "map fst (AList.map_entry k f al) = map fst al"
  by (induction al) auto

lemma map_entry_update: "AList.map_entry k f (AList.update k v al) = AList.update k (f v) al"
  by (induction al) auto

lemma listeners_addListener_list:
  "listeners (addListener n l p d) =
     (if map_of (listeners d) n = None
      then AList.update n [\<lparr>listener = l, priority = p\<rparr>] (listeners d)
      else AList.map_entry n (\<lambda>es. es @ [\<lparr>listener = l, priority = p\<rparr>]) (listeners d))"
  by (simp add: addListener_def Let_def map_entry_update)

lemma wf_new: "wf new_dispatcher"
  by (simp add: wf_def new_dispatcher_def)

lemma wf_addListener: "wf d \<Longrightarrow> wf (addListener n l p d)"
  unfolding wf_def listeners_addListener_list
  by (auto intro!: list_all_map_entry list_all_update)

lemma wf_removeListener: "wf d \<Longrightarrow> wf (removeListener n l d)"
  unfolding wf_def removeListener_def Let_def
  by (auto simp: delete_map_entry intro!: list_all_delete list_all_map_entry
      split: option.splits)

lemma js_sort_Nil_iff [simp]: "js_sort cmp xs = [] \<longleftrightarrow> xs = []"
proof -
  have "insert_by cmp x ys \<noteq> []" for x ys by (cases ys) auto
  then show ?thesis by (cases xs) (auto simp: js_sort_def)
qed

lemma wf_sortListeners: "wf d \<Longrightarrow> wf (sortListeners n d)"
  unfolding wf_def sortListeners_def
  by (auto intro!: list_all_map_entry)

lemma keys_sortListeners [simp]: "map fst (listeners (sortListeners n d)) = map fst (listeners d)"
  by (simp add: sortListeners_def keys_map_entry)

lemma registered_sortListeners:
  "registered m (sortListeners n d) =
     (if m = n then js_sort by_priority (registered n d) else registered m d)"
  by (auto simp: registered_def sortListeners_def map_of_map_entry js_sort_def
      split: option.splits)


text \<open>The state a lookup of a name leaves.\<close>

lemma getListeners_named:
  assumes "name \<noteq> []"
  shows "getListeners (Suc k) (Some name) d =
           Some (Array (map listener (registered name (looked_up name d))), looked_up name d)"
  using assms by (simp add: getListeners.simps(2) looked_up_def registered_def Let_def)

lemma getListeners_all:
  "eventName = None \<or> eventName = Some [] \<Longrightarrow>
   getListeners (Suc k) eventName d =
     map_option (\<lambda>(allListeners, d'). (AllListeners allListeners, d'))
       (collect (\<lambda>name. getListeners k (Some name)) (map fst (listeners d)) [] d)"
  by (auto simp: getListeners.simps(2))

lemma keys_looked_up [simp]: "map fst (listeners (looked_up name d)) = map fst (listeners d)"
  by (simp add: looked_up_def)

lemma wf_looked_up: "wf d \<Longrightarrow> wf (looked_up name d)"
  by (simp add: looked_up_def wf_sortListeners)

lemma collect_keys:
  "collect g names acc d = Some (m, d') \<Longrightarrow> fst ` set m = fst ` set acc \<union> set names"
proof (induction names arbitrary: acc d)
  case Nil
  then show ?case by simp
next
  case (Cons name names)
  from Cons.prems obtain r d1 where "g name d = Some (r, d1)"
    and "collect g names (AList.update name r acc) d1 = Some (m, d')"
    by (auto split: option.splits)
  from Cons.IH [OF this(2)] show ?case by (auto simp: dom_update)
qed

lemma collect_preserves:
  assumes "collect g names acc d = Some (m, d')"
    and "\<And>name d r d'. g name d = Some (r, d') \<Longrightarrow> map fst (listeners d') = map fst (listeners d)"
  shows "map fst (listeners d') = map fst (listeners d)"
  using assms(1)
proof (induction names arbitrary: acc d)
  case Nil
  then show ?case by simp
next
  case (Cons name names)
  then show ?case by (auto split: option.splits dest: assms(2))
qed

lemma getListeners_keys:
  "getListeners k eventName d = Some (r, d') \<Longrightarrow> map fst (listeners d') = map fst (listeners d)"
proof (induction k arbitrary: eventName d r d')
  case 0
  then show ?case by simp
next
  case (Suc k)
  have all: "map fst (listeners d') = map fst (listeners d)"
    if "collect (\<lambda>name. getListeners k (Some name)) (map fst (listeners d)) [] d = Some (m, d')"
    for m
    using that by (rule collect_preserves) (rule Suc.IH)
  show ?case
  proof (cases "eventName = None \<or> eventName = Some []")
    case True
    from Suc.prems show ?thesis
      unfolding getListeners_all [OF True] by (auto dest: all)
  next
    case False
    then obtain name where "eventName = Some name" "name \<noteq> []" by (cases eventName) auto
    with Suc.prems show ?thesis by (auto simp: getListeners_named)
  qed
qed

text \<open>A call without a name returns when the empty string is not a registered name.\<close>

lemma collect_named_returns:
  assumes "[] \<notin> set names"
  shows "\<exists>m d'. collect (\<lambda>name. getListeners (Suc k) (Some name)) names acc d = Some (m, d')"
  using assms by (induction names arbitrary: acc d) (auto simp: getListeners_named)

lemma getListeners_all_returns:
  assumes "[] \<notin> fst ` set (listeners d)"
  shows "\<exists>m d'. getListeners (Suc (Suc k)) None d = Some (AllListeners m, d')"
proof -
  from assms have "[] \<notin> set (map fst (listeners d))" by simp
  from collect_named_returns [OF this, of k "[]" d] show ?thesis
    by (auto simp: getListeners_all)
qed

text \<open>A call without a name never returns when the empty string is a registered name.\<close>

lemma collect_diverges:
  assumes "[] \<in> set names" and "[] \<in> fst ` set (listeners d)"
    and "\<And>d. [] \<in> fst ` set (listeners d) \<Longrightarrow> g [] d = None"
    and "\<And>name d r d'. g name d = Some (r, d') \<Longrightarrow> map fst (listeners d') = map fst (listeners d)"
  shows "collect g names acc d = None"
  using assms(1,2)
proof (induction names arbitrary: acc d)
  case Nil
  then show ?case by simp
next
  case (Cons name names)
  show ?case
  proof (cases "g name d")
    case None
    then show ?thesis by simp
  next
    case (Some rd)
    obtain r d' where rd: "rd = (r, d')" by (cases rd)
    with Some have keys: "map fst (listeners d') = map fst (listeners d)" by (auto dest: assms(4))
    with Cons.prems(2) have in': "[] \<in> fst ` set (listeners d')"
      by (metis list.set_map)
    from Some Cons.prems(2) assms(3) have "name \<noteq> []" by auto
    with Cons.prems(1) have "[] \<in> set names" by auto
    from Cons.IH [OF this in'] Some rd show ?thesis by simp
  qed
qed

lemma getListeners_diverges:
  assumes "[] \<in> fst ` set (listeners d)"
  shows "getListeners k None d = None \<and> getListeners k (Some []) d = None"
  using assms
proof (induction k arbitrary: d)
  case 0
  then show ?case by simp
next
  case (Suc k)
  have "collect (\<lambda>name. getListeners k (Some name)) (map fst (listeners d)) [] d = None"
  proof (rule collect_diverges)
    show "[] \<in> set (map fst (listeners d))" using Suc.prems by simp
    show "[] \<in> fst ` set (listeners d)" by (rule Suc.prems)
    show "getListeners k (Some []) d = None" if "[] \<in> fst ` set (listeners d)" for d
      using Suc.IH [OF that] by simp
    show "map fst (listeners d') = map fst (listeners d)"
      if "getListeners k (Some name) d = Some (r, d')" for name d r d'
      using that by (rule getListeners_keys)
  qed
  then show ?case by (simp add: getListeners_all)
qed

lemma removed_absent: "l \<notin> listener ` set es \<Longrightarrow> removed l es = es"
  by (auto simp: removed_def Let_def findIndex_none)

lemma findIndex_append_fresh:
  "\<forall>x \<in> set xs. \<not> P x \<Longrightarrow> P y \<Longrightarrow> findIndex P (xs @ y # ys) = int (length xs)"
  by (induction xs) (auto simp: Let_def)

lemma removed_snoc:
  "l \<notin> listener ` set es \<Longrightarrow> removed l (es @ [\<lparr>listener = l, priority = p\<rparr>]) = es"
proof -
  assume "l \<notin> listener ` set es"
  then have "findIndex (\<lambda>item. listener item = l) (es @ [\<lparr>listener = l, priority = p\<rparr>])
             = int (length es)"
    by (intro findIndex_append_fresh) auto
  then show ?thesis by (simp add: removed_def Let_def splice1_def)
qed

lemma removed_single: "removed (listener e) [e] = []"
  by (simp add: removed_def Let_def splice1_def)

lemma hasListeners_named:
  "name \<noteq> [] \<Longrightarrow> hasListeners (Some name) d = (registered name d \<noteq> [])"
  by (auto simp: hasListeners_def registered_def split: option.splits)

lemma hasListeners_global:
  "eventName = None \<or> eventName = Some [] \<Longrightarrow> hasListeners eventName d = (listeners d \<noteq> [])"
  by (auto simp: hasListeners_def)

lemma map_of_eq_empty: "map_of al = Map.empty \<longleftrightarrow> al = []"
  by (cases al) (auto simp: fun_eq_iff)

lemma hasListeners_cong:
  assumes "map_of (listeners d) = map_of (listeners d')"
  shows "hasListeners eventName d = hasListeners eventName d'"
proof -
  from assms have "(listeners d = []) = (listeners d' = [])"
    by (metis map_of_eq_empty)
  with assms show ?thesis
    by (auto simp: hasListeners_def split: option.splits)
qed

lemmas registry_eval =
  addListener_def removeListener_def sortListeners_def looked_up_def needs_resort_def
  js_sort_def by_priority_def new_dispatcher_def splice1_def Let_def hasListeners_def
  getListenerPriority_def registered_def

section \<open>Claims on the sort cache and on subscribers\<close>




text \<open>What holds after \<open>removeListener\<close> has removed the only entry left under a name.\<close>

lemma removeListener_last:
  assumes "map_of (listeners d) name = Some [e]"
  shows "(name \<noteq> [] \<longrightarrow> \<not> hasListeners (Some name) (removeListener name (listener e) d))
    \<and> (name = [] \<longrightarrow> hasListeners (Some name) (removeListener name (listener e) d)
                      = (listeners (removeListener name (listener e) d) \<noteq> []))
    \<and> name \<notin> fst ` set (listeners (removeListener name (listener e) d))
    \<and> (\<forall>k m d'. getListeners k None (removeListener name (listener e) d) = Some (AllListeners m, d')
          \<longrightarrow> name \<notin> fst ` set m)
    \<and> ([] \<notin> fst ` set (listeners (removeListener name (listener e) d)) \<longrightarrow>
          (\<exists>m d'. getListeners (Suc (Suc k)) None (removeListener name (listener e) d)
                     = Some (AllListeners m, d')))
    \<and> getListenerPriority name l (removeListener name (listener e) d) = None"
proof -
  let ?d = "removeListener name (listener e) d"
  have none: "map_of (listeners ?d) name = None"
    using assms by (simp add: listeners_removeListener removed_single)
  then have notin: "name \<notin> fst ` set (listeners ?d)"
    by (simp add: map_of_eq_None_iff)
  have all: "name \<notin> fst ` set m" if "getListeners k None ?d = Some (AllListeners m, d')" for k m d'
  proof (cases k)
    case 0
    with that show ?thesis by simp
  next
    case (Suc j)
    with that obtain d'' where
      "collect (\<lambda>name. getListeners j (Some name)) (map fst (listeners ?d)) [] ?d = Some (m, d'')"
      by (auto simp: getListeners_all)
    from collect_keys [OF this] notin show ?thesis by simp
  qed
  from none notin all show ?thesis
    by (auto simp: hasListeners_named hasListeners_global registered_def getListenerPriority_def
        intro: getListeners_all_returns)
qed

lemma update_new_key: "k \<notin> fst ` set al \<Longrightarrow> AList.update k v al = al @ [(k, v)]"
  by (induction al) auto

lemma registered_addListener:
  "registered m (addListener n l p d) =
     (if m = n then registered n d @ [\<lparr>listener = l, priority = p\<rparr>] else registered m d)"
  by (simp add: registered_def listeners_addListener)

lemma registered_Some: "map_of (listeners d) n = Some es \<Longrightarrow> registered n d = es"
  by (simp add: registered_def)

lemma fold_remove_restores:
  assumes "distinct (map fst bs)"
    and "\<forall>(n, b) \<in> set bs. \<exists>p. registered n d = orig n @ [\<lparr>listener = b, priority = p\<rparr>]
            \<and> b \<notin> listener ` set (orig n)"
  shows "map_of (listeners (fold (\<lambda>(n, b). removeListener n b) bs d)) =
         (\<lambda>n. if n \<in> fst ` set bs then (if orig n = [] then None else Some (orig n))
              else map_of (listeners d) n)"
  using assms
proof (induction bs arbitrary: d)
  case Nil
  then show ?case by simp
next
  case (Cons nb bs)
  obtain n b where nb: "nb = (n, b)" by (cases nb)
  from Cons.prems(2) nb obtain p where
    reg: "registered n d = orig n @ [\<lparr>listener = b, priority = p\<rparr>]"
    and nin: "b \<notin> listener ` set (orig n)"
    by auto
  from reg have some: "map_of (listeners d) n = Some (orig n @ [\<lparr>listener = b, priority = p\<rparr>])"
    by (auto simp: registered_def split: option.splits)
  let ?d1 = "removeListener n b d"
  have l1: "map_of (listeners ?d1) =
        (map_of (listeners d))(n := if orig n = [] then None else Some (orig n))"
    using some nin by (auto simp: listeners_removeListener removed_snoc)
  from Cons.prems(1) nb have nfresh: "n \<notin> fst ` set bs" and dist: "distinct (map fst bs)"
    by auto
  have "\<exists>p. registered m ?d1 = orig m @ [\<lparr>listener = c, priority = p\<rparr>]
            \<and> c \<notin> listener ` set (orig m)" if mc: "(m, c) \<in> set bs" for m c
  proof -
    from mc nfresh have "m \<noteq> n" by force
    then have "registered m ?d1 = registered m d" by (simp add: registered_def l1)
    with Cons.prems(2) mc show ?thesis by auto
  qed
  then have "\<forall>(m, c) \<in> set bs. \<exists>p. registered m ?d1 = orig m @ [\<lparr>listener = c, priority = p\<rparr>]
            \<and> c \<notin> listener ` set (orig m)"
    by blast
  from Cons.IH [OF dist this] nb nfresh show ?case
    by (auto simp: l1 fun_eq_iff)
qed

lemma addSubscriber_loop_Returned:
  assumes "addSubscriber_loop s es bound d = (Returned (), bound', d')"
    and "distinct (map fst es)" and "fst ` set es \<inter> fst ` set bound = {}"
    and "distinct (map fst bound)"
  shows "distinct (map fst bound')
    \<and> fst ` set bound' = fst ` set bound \<union> fst ` set es
    \<and> (\<forall>n. n \<notin> fst ` set es \<longrightarrow> map_of (listeners d') n = map_of (listeners d) n)
    \<and> (\<forall>(n, b) \<in> set bound'. (n, b) \<in> set bound \<or>
          (n \<in> fst ` set es \<and> allocated d \<le> b
           \<and> (\<exists>p. registered n d' = registered n d @ [\<lparr>listener = b, priority = p\<rparr>])))
    \<and> subscriberListeners d' = subscriberListeners d"
  using assms
proof (induction es arbitrary: bound d)
  case Nil
  then show ?case by auto
next
  case (Cons x es)
  obtain n ps where x: "x = (n, ps)" by (cases x)
  define p where "p = (case ps of MethodName _ \<Rightarrow> 0
               | Descriptor _ q \<Rightarrow> (case q of None \<Rightarrow> 0 | Some v \<Rightarrow> v))"
  define b where "b = allocated d"
  define d1 where "d1 = addListener n b p (d\<lparr>allocated := Suc (allocated d)\<rparr>)"
  define bound1 where "bound1 = AList.update n b bound"
  from Cons.prems(1) have run: "addSubscriber_loop s es bound1 d1 = (Returned (), bound', d')"
    unfolding x p_def b_def d1_def bound1_def
    by (simp add: Let_def split: if_splits)
  from Cons.prems(2,3) x have n_es: "n \<notin> fst ` set es" and n_bound: "n \<notin> fst ` set bound"
    and dist: "distinct (map fst es)"
    by auto
  have b1: "bound1 = bound @ [(n, b)]"
    unfolding bound1_def using n_bound by (rule update_new_key)
  have disj: "fst ` set es \<inter> fst ` set bound1 = {}"
    using Cons.prems(3) n_es x by (auto simp: b1)
  have dist1: "distinct (map fst bound1)"
    using Cons.prems(4) n_bound by (simp add: b1)
  note IH = Cons.IH [OF run dist disj dist1]
  have reg1: "registered m d1 =
     (if m = n then registered n d @ [\<lparr>listener = b, priority = p\<rparr>] else registered m d)" for m
    by (simp add: d1_def registered_addListener) (simp add: registered_def)
  have map1: "map_of (listeners d1) m = map_of (listeners d) m" if "m \<noteq> n" for m
    using that by (simp add: d1_def listeners_addListener)
  have alloc1: "allocated d1 = Suc (allocated d)"
    by (simp add: d1_def)
  have sub1: "subscriberListeners d1 = subscriberListeners d"
    by (simp add: d1_def)
  have keep: "map_of (listeners d') m = map_of (listeners d1) m" if "m \<notin> fst ` set es" for m
    using IH that by blast
  have c2: "\<forall>m. m \<notin> fst ` set (x # es) \<longrightarrow> map_of (listeners d') m = map_of (listeners d) m"
    using keep map1 x by auto
  have c3': "m \<in> fst ` set (x # es) \<and> allocated d \<le> c
           \<and> (\<exists>p. registered m d' = registered m d @ [\<lparr>listener = c, priority = p\<rparr>])"
    if mc: "(m, c) \<in> set bound'" and notold: "(m, c) \<notin> set bound" for m c
  proof -
    from IH mc have "(m, c) \<in> set bound1 \<or>
          (m \<in> fst ` set es \<and> allocated d1 \<le> c
           \<and> (\<exists>p. registered m d' = registered m d1 @ [\<lparr>listener = c, priority = p\<rparr>]))"
      by blast
    then show ?thesis
    proof
      assume "(m, c) \<in> set bound1"
      with notold have mn: "m = n" and cb: "c = b" by (auto simp: b1)
      have "registered n d' = registered n d1"
        using keep [OF n_es] by (simp add: registered_def)
      with mn cb x show ?thesis by (auto simp: reg1 b_def)
    next
      assume a: "m \<in> fst ` set es \<and> allocated d1 \<le> c
           \<and> (\<exists>p. registered m d' = registered m d1 @ [\<lparr>listener = c, priority = p\<rparr>])"
      with n_es have "m \<noteq> n" by auto
      with a show ?thesis by (auto simp: reg1 alloc1)
    qed
  qed
  then have c3: "\<forall>(m, c) \<in> set bound'. (m, c) \<in> set bound \<or>
          (m \<in> fst ` set (x # es) \<and> allocated d \<le> c
           \<and> (\<exists>p. registered m d' = registered m d @ [\<lparr>listener = c, priority = p\<rparr>]))"
    by blast
  have c1: "fst ` set bound' = fst ` set bound \<union> fst ` set (x # es)"
    using IH x by (auto simp: b1)
  from IH c1 c2 c3 sub1 show ?case by simp
qed


lemma fresh_registered:
  assumes "fresh d" and "allocated d \<le> b"
  shows "b \<notin> listener ` set (registered n d)"
proof (cases "map_of (listeners d) n")
  case None
  then show ?thesis by (simp add: registered_def)
next
  case (Some es)
  then have "(n, es) \<in> set (listeners d)" by (rule map_of_SomeD)
  with assms(1) have "\<forall>item \<in> set es. listener item < allocated d"
    by (auto simp: fresh_def list_all_iff)
  with assms(2) Some show ?thesis by (auto simp: registered_def)
qed

lemma fresh_new: "fresh new_dispatcher"
  by (simp add: fresh_def new_dispatcher_def)

lemma fresh_addListener: "fresh d \<Longrightarrow> l < allocated d \<Longrightarrow> fresh (addListener n l p d)"
  unfolding fresh_def listeners_addListener_list
  by (auto intro!: list_all_map_entry list_all_update)

lemma list_all_splice1: "list_all P xs \<Longrightarrow> list_all P (splice1 i xs)"
  by (auto simp: splice1_def list_all_iff dest: in_set_takeD in_set_dropD)

lemma fresh_removeListener: "fresh d \<Longrightarrow> fresh (removeListener n l d)"
  unfolding fresh_def removeListener_def Let_def
  by (auto simp: delete_map_entry list_all_splice1
      intro!: list_all_delete list_all_map_entry split: option.splits)

lemma fresh_allocated_mono:
  "fresh d \<Longrightarrow> fresh (d\<lparr>allocated := Suc (allocated d)\<rparr>)"
  by (auto simp: fresh_def list_all_iff less_Suc_eq)

lemma addSubscriber_loop_inv:
  "addSubscriber_loop s es bound d = (out, bound', d') \<Longrightarrow> wf d \<Longrightarrow> fresh d \<Longrightarrow> wf d' \<and> fresh d'"
proof (induction es arbitrary: bound d)
  case Nil
  then show ?case by simp
next
  case (Cons x es)
  obtain n ps where x: "x = (n, ps)" by (cases x)
  show ?case
  proof (cases "(case ps of MethodName m \<Rightarrow> m | Descriptor m _ \<Rightarrow> m) \<in> set (methods s)")
    case False
    with Cons.prems x show ?thesis by (simp add: Let_def)
  next
    case True
    define p where "p = (case ps of MethodName _ \<Rightarrow> 0
               | Descriptor _ q \<Rightarrow> (case q of None \<Rightarrow> 0 | Some v \<Rightarrow> v))"
    define d1 where "d1 = addListener n (allocated d) p (d\<lparr>allocated := Suc (allocated d)\<rparr>)"
    from Cons.prems(1) True x
    have run: "addSubscriber_loop s es (AList.update n (allocated d) bound) d1 = (out, bound', d')"
      by (simp add: Let_def p_def d1_def)
    from Cons.prems(2) have "wf (d\<lparr>allocated := Suc (allocated d)\<rparr>)" by (simp add: wf_def)
    then have w1: "wf d1" unfolding d1_def by (rule wf_addListener)
    from Cons.prems(3) have "fresh (d\<lparr>allocated := Suc (allocated d)\<rparr>)"
      by (rule fresh_allocated_mono)
    then have f1: "fresh d1" unfolding d1_def by (rule fresh_addListener) simp
    from Cons.IH [OF run w1 f1] show ?thesis .
  qed
qed

lemma fold_removeListener_inv:
  "wf d \<Longrightarrow> fresh d \<Longrightarrow>
   wf (fold (\<lambda>(n, b). removeListener n b) bs d) \<and> fresh (fold (\<lambda>(n, b). removeListener n b) bs d)"
  by (induction bs arbitrary: d) (auto simp: wf_removeListener fresh_removeListener)

text \<open>
  C6. Let \<open>addSubscriber(s)\<close> return normally on a dispatcher whose stored arrays are
  non-empty and whose listeners all exist already, for a subscriber whose record has
  one entry per event name. After \<open>removeSubscriber(s)\<close> the array under every name is what
  it was before the subscriber was added: \<open>hasListeners\<close> answers as before for every
  name (and for the global test), every other entry is present in its place with its
  priority, and the record kept for \<open>s\<close> is discarded.
\<close>

theorem subscriber_round_trip:
  assumes "wf d" and "fresh d" and "distinct (map fst (entries s))"
    and "addSubscriber s d = (Returned (), d1)"
  shows "(\<forall>eventName. hasListeners eventName (removeSubscriber s d1) = hasListeners eventName d)
    \<and> map_of (listeners (removeSubscriber s d1)) = map_of (listeners d)
    \<and> (\<forall>name l. getListenerPriority name l (removeSubscriber s d1) = getListenerPriority name l d)
    \<and> map_of (subscriberListeners (removeSubscriber s d1)) (ref s) = None"
proof -
  from assms(4) obtain bound' d' where
    loop: "addSubscriber_loop s (entries s) [] d = (Returned (), bound', d')"
    and d1: "d1 = d'\<lparr>subscriberListeners := AList.update (ref s) bound' (subscriberListeners d')\<rparr>"
    by (auto simp: addSubscriber_def split: prod.splits outcome.splits)
  from addSubscriber_loop_Returned [OF loop assms(3)]
  have dist: "distinct (map fst bound')"
    and keys: "fst ` set bound' = fst ` set (entries s)"
    and keep: "\<And>n. n \<notin> fst ` set (entries s) \<Longrightarrow> map_of (listeners d') n = map_of (listeners d) n"
    and new: "\<And>n b. (n, b) \<in> set bound' \<Longrightarrow> allocated d \<le> b
           \<and> (\<exists>p. registered n d' = registered n d @ [\<lparr>listener = b, priority = p\<rparr>])"
    by auto
  let ?d2 = "fold (\<lambda>(n, b). removeListener n b) bound' d1"
  have rs: "removeSubscriber s d1 =
        ?d2\<lparr>subscriberListeners := AList.delete (ref s) (subscriberListeners ?d2)\<rparr>"
    by (simp add: removeSubscriber_def d1 update_conv' Let_def)
  have "\<forall>(n, b) \<in> set bound'. \<exists>p. registered n d1 = registered n d @ [\<lparr>listener = b, priority = p\<rparr>]
            \<and> b \<notin> listener ` set (registered n d)"
  proof -
    have "\<exists>p. registered n d1 = registered n d @ [\<lparr>listener = b, priority = p\<rparr>]
            \<and> b \<notin> listener ` set (registered n d)" if "(n, b) \<in> set bound'" for n b
    proof -
      from new [OF that] obtain p where "allocated d \<le> b"
        and "registered n d' = registered n d @ [\<lparr>listener = b, priority = p\<rparr>]" by blast
      moreover have "registered n d1 = registered n d'" by (simp add: d1 registered_def)
      moreover from assms(2) \<open>allocated d \<le> b\<close> have "b \<notin> listener ` set (registered n d)"
        by (rule fresh_registered)
      ultimately show ?thesis by auto
    qed
    then show ?thesis by blast
  qed
  from fold_remove_restores [OF dist this]
  have "map_of (listeners ?d2) =
         (\<lambda>n. if n \<in> fst ` set bound'
              then (if registered n d = [] then None else Some (registered n d))
              else map_of (listeners d1) n)" .
  moreover have "(if registered n d = [] then None else Some (registered n d)) = map_of (listeners d) n"
    for n
    using map_of_wf [OF assms(1), of n] by (auto simp: registered_def split: option.splits)
  moreover have "map_of (listeners d1) n = map_of (listeners d) n" if "n \<notin> fst ` set bound'" for n
    using keep that keys by (simp add: d1)
  ultimately have eq: "map_of (listeners (removeSubscriber s d1)) = map_of (listeners d)"
    by (auto simp: rs fun_eq_iff)
  have "hasListeners eventName (removeSubscriber s d1) = hasListeners eventName d" for eventName
    using eq by (rule hasListeners_cong)
  moreover have "getListenerPriority name l (removeSubscriber s d1) = getListenerPriority name l d"
    for name l
    by (simp add: getListenerPriority_def eq)
  moreover have "map_of (subscriberListeners (removeSubscriber s d1)) (ref s) = None"
    by (simp add: rs delete_conv')
  ultimately show ?thesis using eq by blast
qed

theorem subscriber_round_trip_witness:
  "wf (addListener ''e1'' 7 5 (new_dispatcher\<lparr>allocated := 10\<rparr>))
   \<and> fresh (addListener ''e1'' 7 5 (new_dispatcher\<lparr>allocated := 10\<rparr>))
   \<and> fst (addSubscriber
            \<lparr>ref = 1, entries = [(''e1'', MethodName ''m1''), (''e2'', Descriptor ''m2'' (Some 10))],
             methods = [''m1'', ''m2'']\<rparr>
            (addListener ''e1'' 7 5 (new_dispatcher\<lparr>allocated := 10\<rparr>))) = Returned ()
   \<and> hasListeners (Some ''e2'')
        (snd (addSubscriber
            \<lparr>ref = 1, entries = [(''e1'', MethodName ''m1''), (''e2'', Descriptor ''m2'' (Some 10))],
             methods = [''m1'', ''m2'']\<rparr>
            (addListener ''e1'' 7 5 (new_dispatcher\<lparr>allocated := 10\<rparr>))))
   \<and> \<not> hasListeners (Some ''e2'')
        (removeSubscriber
           \<lparr>ref = 1, entries = [(''e1'', MethodName ''m1''), (''e2'', Descriptor ''m2'' (Some 10))],
            methods = [''m1'', ''m2'']\<rparr>
           (snd (addSubscriber
            \<lparr>ref = 1, entries = [(''e1'', MethodName ''m1''), (''e2'', Descriptor ''m2'' (Some 10))],
             methods = [''m1'', ''m2'']\<rparr>
            (addListener ''e1'' 7 5 (new_dispatcher\<lparr>allocated := 10\<rparr>)))))
   \<and> getListenerPriority ''e1'' 7
        (removeSubscriber
           \<lparr>ref = 1, entries = [(''e1'', MethodName ''m1''), (''e2'', Descriptor ''m2'' (Some 10))],
            methods = [''m1'', ''m2'']\<rparr>
           (snd (addSubscriber
            \<lparr>ref = 1, entries = [(''e1'', MethodName ''m1''), (''e2'', Descriptor ''m2'' (Some 10))],
             methods = [''m1'', ''m2'']\<rparr>
            (addListener ''e1'' 7 5 (new_dispatcher\<lparr>allocated := 10\<rparr>))))) = Some 5"
proof -
  let ?s = "\<lparr>ref = 1, entries = [(''e1'', MethodName ''m1''), (''e2'', Descriptor ''m2'' (Some 10))],
             methods = [''m1'', ''m2'']\<rparr>"
  let ?d = "addListener ''e1'' 7 5 (new_dispatcher\<lparr>allocated := 10\<rparr>)"
  have w: "wf ?d" by (simp add: wf_def registry_eval)
  have f: "fresh ?d" by (simp add: fresh_def registry_eval)
  have dist: "distinct (map fst (entries ?s))" by simp
  have out: "fst (addSubscriber ?s ?d) = Returned ()"
    by (simp add: addSubscriber_def registry_eval)
  then have add: "addSubscriber ?s ?d = (Returned (), snd (addSubscriber ?s ?d))"
    by (metis prod.collapse)
  have h2: "hasListeners (Some ''e2'') (snd (addSubscriber ?s ?d))"
    by (simp add: addSubscriber_def registry_eval)
  have h0: "\<not> hasListeners (Some ''e2'') ?d"
    by (simp add: registry_eval)
  have p0: "getListenerPriority ''e1'' 7 ?d = Some 5"
    by (simp add: registry_eval)
  from subscriber_round_trip [OF w f dist add] w f out h2 h0 p0 show ?thesis
    by simp
qed

section \<open>The dispatch loops\<close>

declare node_loop.simps(2) [simp del] browser_loop.simps(2) [simp del]
  doDispatch_loop.simps(2) [simp del]

lemma invoke_fst: "fst (invoke B l ev w) = completion (call B l (heap w ev))"
  by (simp add: invoke_def Let_def)

lemma invoke_snd:
  "calls (snd (invoke B l ev w)) = calls w @ [l]"
  "disp (snd (invoke B l ev w)) = disp w"
  "console_error (snd (invoke B l ev w)) = console_error w"
  "heap (snd (invoke B l ev w)) ev =
     (heap w ev)\<lparr>propagationStopped := propagationStopped (heap w ev) \<or> stops (call B l (heap w ev))\<rparr>"
  by (simp_all add: invoke_def Let_def)

text \<open>One round of the loops of the Node and browser dispatchers, when the event is
  not stopped: the call, then the report of a thrown error.\<close>

lemma node_loop_step:
  assumes "\<not> (st \<and> propagationStopped (heap w ev))"
  shows "\<exists>w2. node_loop B (l # ls) name st ev w = node_loop B ls name st ev w2
     \<and> calls w2 = calls w @ [l] \<and> disp w2 = disp w
     \<and> heap w2 ev = (heap w ev)\<lparr>propagationStopped :=
                        propagationStopped (heap w ev) \<or> stops (call B l (heap w ev))\<rparr>"
proof -
  obtain c w1 where inv: "invoke B l ev w = (c, w1)" by (cases "invoke B l ev w")
  from invoke_snd [of B l ev w] inv
  have w1: "calls w1 = calls w @ [l]" "disp w1 = disp w"
    "heap w1 ev = (heap w ev)\<lparr>propagationStopped :=
                        propagationStopped (heap w ev) \<or> stops (call B l (heap w ev))\<rparr>"
    by simp_all
  show ?thesis
  proof (cases c)
    case (Throws x)
    with assms inv have "node_loop B (l # ls) name st ev w =
        node_loop B ls name st ev (w1\<lparr>console_error := console_error w1 @ [(name, x)]\<rparr>)"
      by (auto simp: node_loop.simps(2))
    with w1 show ?thesis
      by (intro exI [of _ "w1\<lparr>console_error := console_error w1 @ [(name, x)]\<rparr>"]) simp
  next
    case Returns
    with assms inv have "node_loop B (l # ls) name st ev w = node_loop B ls name st ev w1"
      by (auto simp: node_loop.simps(2))
    with w1 show ?thesis by (intro exI [of _ w1]) simp
  next
    case ReturnsPromise
    with assms inv have "node_loop B (l # ls) name st ev w = node_loop B ls name st ev w1"
      by (auto simp: node_loop.simps(2))
    with w1 show ?thesis by (intro exI [of _ w1]) simp
  qed
qed

lemma node_loop_stopped:
  "st \<and> propagationStopped (heap w ev) \<Longrightarrow> node_loop B ls name st ev w = w"
  by (cases ls) (simp_all add: node_loop.simps(2))

lemma node_loop_props:
  "disp (node_loop B ls name True ev w) = disp w
   \<and> (\<exists>k\<le>length ls. calls (node_loop B ls name True ev w) = calls w @ take k ls)
   \<and> (\<forall>k. k < length (calls (node_loop B ls name True ev w)) - length (calls w)
          \<and> stops (call B (ls ! k) (heap w ev)) \<longrightarrow>
          calls (node_loop B ls name True ev w) = calls w @ take (Suc k) ls
          \<and> propagationStopped (heap (node_loop B ls name True ev w) ev))"
proof (induction ls arbitrary: w)
  case Nil
  then show ?case by simp
next
  case (Cons l ls)
  show ?case
  proof (cases "propagationStopped (heap w ev)")
    case True
    then show ?thesis by (simp add: node_loop_stopped)
  next
    case False
    then have "\<not> (True \<and> propagationStopped (heap w ev))" by simp
    from node_loop_step [OF this, of B l ls name]
    obtain w2 where step: "node_loop B (l # ls) name True ev w = node_loop B ls name True ev w2"
      and c2: "calls w2 = calls w @ [l]" and d2: "disp w2 = disp w"
      and h2: "heap w2 ev = (heap w ev)\<lparr>propagationStopped :=
                        propagationStopped (heap w ev) \<or> stops (call B l (heap w ev))\<rparr>"
      by blast
    show ?thesis
    proof (cases "stops (call B l (heap w ev))")
      case True
      with h2 have "True \<and> propagationStopped (heap w2 ev)" by simp
      then have "node_loop B ls name True ev w2 = w2" by (rule node_loop_stopped)
      with step have eq: "node_loop B (l # ls) name True ev w = w2" by simp
      have "\<exists>k\<le>length (l # ls). calls w2 = calls w @ take k (l # ls)"
        by (rule exI [of _ 1]) (simp add: c2)
      with True h2 show ?thesis unfolding eq by (simp add: c2 d2)
    next
      case stay: False
      with False h2 have h2': "heap w2 ev = heap w ev" by simp
      note IH = Cons.IH [of w2]
      let ?w' = "node_loop B ls name True ev w2"
      from IH obtain k where k: "k \<le> length ls" "calls ?w' = calls w2 @ take k ls" by blast
      have p1: "\<exists>k\<le>length (l # ls). calls ?w' = calls w @ take k (l # ls)"
        by (rule exI [of _ "Suc k"]) (simp add: k c2)
      have p2: "calls ?w' = calls w @ take (Suc j) (l # ls) \<and> propagationStopped (heap ?w' ev)"
        if "j < length (calls ?w') - length (calls w)" "stops (call B ((l # ls) ! j) (heap w ev))"
        for j
      proof (cases j)
        case 0
        with that stay show ?thesis by simp
      next
        case (Suc i)
        with that have "i < length (calls ?w') - length (calls w2)"
          and "stops (call B (ls ! i) (heap w2 ev))"
          by (simp_all add: c2 h2')
        with IH have "calls ?w' = calls w2 @ take (Suc i) ls \<and> propagationStopped (heap ?w' ev)"
          by blast
        with Suc show ?thesis by (simp add: c2)
      qed
      from IH p1 p2 show ?thesis unfolding step by (simp add: d2) blast
    qed
  qed
qed

lemma node_loop_all:
  assumes "\<forall>l \<in> set ls. \<forall>e. \<not> stops (call B l e)"
    and "\<not> (st \<and> propagationStopped (heap w ev))"
  shows "calls (node_loop B ls name st ev w) = calls w @ ls"
  using assms
proof (induction ls arbitrary: w)
  case Nil
  then show ?case by simp
next
  case (Cons l ls)
  from node_loop_step [OF Cons.prems(2), of B l ls name]
  obtain w2 where step: "node_loop B (l # ls) name st ev w = node_loop B ls name st ev w2"
    and c2: "calls w2 = calls w @ [l]"
    and h2: "heap w2 ev = (heap w ev)\<lparr>propagationStopped :=
                        propagationStopped (heap w ev) \<or> stops (call B l (heap w ev))\<rparr>"
    by blast
  from Cons.prems h2 have "\<not> (st \<and> propagationStopped (heap w2 ev))" by simp
  with Cons.IH [of w2] Cons.prems(1) show ?case by (simp add: step c2)
qed

lemma browser_loop_node_loop: "browser_loop B ls name st ev w = node_loop B ls name st ev w"
proof (induction ls arbitrary: w)
  case Nil
  then show ?case by simp
next
  case (Cons l ls)
  obtain c w1 where inv: "invoke B l ev w = (c, w1)" by (cases "invoke B l ev w")
  with Cons.IH show ?case by (cases c) (simp_all add: node_loop.simps(2) browser_loop.simps(2))
qed


text \<open>One round of the loop of \<open>doDispatch\<close>, when the event is not stopped.\<close>

lemma doDispatch_loop_step:
  assumes "\<not> (stoppable (heap w ev) \<and> propagationStopped (heap w ev))"
  shows "\<exists>w1. calls w1 = calls w @ [l] \<and> disp w1 = disp w
     \<and> heap w1 ev = (heap w ev)\<lparr>propagationStopped :=
                        propagationStopped (heap w ev) \<or> stops (call B l (heap w ev))\<rparr>
     \<and> doDispatch_loop B (l # ls) ev w =
         (case completion (call B l (heap w ev)) of
            Throws x \<Rightarrow> (Threw x, w1)
          | _ \<Rightarrow> doDispatch_loop B ls ev w1)"
proof -
  obtain c w1 where inv: "invoke B l ev w = (c, w1)" by (cases "invoke B l ev w")
  from invoke_snd [of B l ev w] invoke_fst [of B l ev w] inv
  have w1: "calls w1 = calls w @ [l]" "disp w1 = disp w"
    "heap w1 ev = (heap w ev)\<lparr>propagationStopped :=
                        propagationStopped (heap w ev) \<or> stops (call B l (heap w ev))\<rparr>"
    and c: "c = completion (call B l (heap w ev))"
    by simp_all
  from assms inv c have "doDispatch_loop B (l # ls) ev w =
         (case completion (call B l (heap w ev)) of
            Throws x \<Rightarrow> (Threw x, w1)
          | _ \<Rightarrow> doDispatch_loop B ls ev w1)"
    by (cases c) (auto simp: doDispatch_loop.simps(2))
  with w1 show ?thesis by blast
qed

lemma doDispatch_loop_stopped:
  "stoppable (heap w ev) \<and> propagationStopped (heap w ev) \<Longrightarrow>
   doDispatch_loop B ls ev w = (Returned (), w)"
  by (cases ls) (simp_all add: doDispatch_loop.simps(2))

lemma doDispatch_loop_props:
  assumes "stoppable (heap w ev)"
  shows "disp (snd (doDispatch_loop B ls ev w)) = disp w
   \<and> (\<exists>k\<le>length ls. calls (snd (doDispatch_loop B ls ev w)) = calls w @ take k ls)
   \<and> (\<forall>k. k < length (calls (snd (doDispatch_loop B ls ev w))) - length (calls w)
          \<and> stops (call B (ls ! k) (heap w ev)) \<longrightarrow>
          calls (snd (doDispatch_loop B ls ev w)) = calls w @ take (Suc k) ls
          \<and> propagationStopped (heap (snd (doDispatch_loop B ls ev w)) ev))"
  using assms
proof (induction ls arbitrary: w)
  case Nil
  then show ?case by simp
next
  case (Cons l ls)
  show ?case
  proof (cases "propagationStopped (heap w ev)")
    case True
    with Cons.prems show ?thesis by (simp add: doDispatch_loop_stopped)
  next
    case False
    then have "\<not> (stoppable (heap w ev) \<and> propagationStopped (heap w ev))" by simp
    from doDispatch_loop_step [OF this, of l B ls]
    obtain w1 where c1: "calls w1 = calls w @ [l]" and d1: "disp w1 = disp w"
      and h1: "heap w1 ev = (heap w ev)\<lparr>propagationStopped :=
                        propagationStopped (heap w ev) \<or> stops (call B l (heap w ev))\<rparr>"
      and step: "doDispatch_loop B (l # ls) ev w =
         (case completion (call B l (heap w ev)) of
            Throws x \<Rightarrow> (Threw x, w1)
          | _ \<Rightarrow> doDispatch_loop B ls ev w1)"
      by blast
    from Cons.prems h1 have st1: "stoppable (heap w1 ev)" by simp
    have one: "\<exists>k\<le>length (l # ls). calls w1 = calls w @ take k (l # ls)"
      by (rule exI [of _ 1]) (simp add: c1)
    have stop1: "propagationStopped (heap w1 ev)" if "stops (call B l (heap w ev))"
      using that h1 by simp
    show ?thesis
    proof (cases "\<exists>x. completion (call B l (heap w ev)) = Throws x")
      case True
      then obtain x where "completion (call B l (heap w ev)) = Throws x" by blast
      with step have eq: "doDispatch_loop B (l # ls) ev w = (Threw x, w1)" by simp
      from one stop1 show ?thesis unfolding eq by (simp add: c1 d1)
    next
      case nothrow: False
      with step have eq: "doDispatch_loop B (l # ls) ev w = doDispatch_loop B ls ev w1"
        by (cases "completion (call B l (heap w ev))") simp_all
      show ?thesis
      proof (cases "stops (call B l (heap w ev))")
        case True
        with st1 stop1 have "doDispatch_loop B ls ev w1 = (Returned (), w1)"
          by (intro doDispatch_loop_stopped) simp
        with one stop1 True show ?thesis unfolding eq by (simp add: c1 d1)
      next
        case stay: False
        with False h1 have h1': "heap w1 ev = heap w ev" by simp
        note IH = Cons.IH [OF st1]
        let ?w' = "snd (doDispatch_loop B ls ev w1)"
        from IH obtain k where k: "k \<le> length ls" "calls ?w' = calls w1 @ take k ls" by blast
        have p1: "\<exists>k\<le>length (l # ls). calls ?w' = calls w @ take k (l # ls)"
          by (rule exI [of _ "Suc k"]) (simp add: k c1)
        have p2: "calls ?w' = calls w @ take (Suc j) (l # ls) \<and> propagationStopped (heap ?w' ev)"
          if "j < length (calls ?w') - length (calls w)"
            "stops (call B ((l # ls) ! j) (heap w ev))" for j
        proof (cases j)
          case 0
          with that stay show ?thesis by simp
        next
          case (Suc i)
          with that have "i < length (calls ?w') - length (calls w1)"
            and "stops (call B (ls ! i) (heap w1 ev))"
            by (simp_all add: c1 h1')
          with IH have "calls ?w' = calls w1 @ take (Suc i) ls \<and> propagationStopped (heap ?w' ev)"
            by blast
          with Suc show ?thesis by (simp add: c1)
        qed
        from IH p1 p2 show ?thesis unfolding eq by (simp add: d1) blast
      qed
    qed
  qed
qed

lemma doDispatch_loop_all:
  assumes "\<forall>l \<in> set ls. \<forall>e. \<not> stops (call B l e) \<and> (\<forall>x. completion (call B l e) \<noteq> Throws x)"
    and "\<not> (stoppable (heap w ev) \<and> propagationStopped (heap w ev))"
  shows "fst (doDispatch_loop B ls ev w) = Returned ()
         \<and> calls (snd (doDispatch_loop B ls ev w)) = calls w @ ls"
  using assms
proof (induction ls arbitrary: w)
  case Nil
  then show ?case by simp
next
  case (Cons l ls)
  from doDispatch_loop_step [OF Cons.prems(2), of l B ls]
  obtain w1 where c1: "calls w1 = calls w @ [l]"
    and h1: "heap w1 ev = (heap w ev)\<lparr>propagationStopped :=
                        propagationStopped (heap w ev) \<or> stops (call B l (heap w ev))\<rparr>"
    and step: "doDispatch_loop B (l # ls) ev w =
         (case completion (call B l (heap w ev)) of
            Throws x \<Rightarrow> (Threw x, w1)
          | _ \<Rightarrow> doDispatch_loop B ls ev w1)"
    by blast
  from Cons.prems(1) have "\<forall>x. completion (call B l (heap w ev)) \<noteq> Throws x" by simp
  with step have eq: "doDispatch_loop B (l # ls) ev w = doDispatch_loop B ls ev w1"
    by (cases "completion (call B l (heap w ev))") simp_all
  from Cons.prems h1 have "\<not> (stoppable (heap w1 ev) \<and> propagationStopped (heap w1 ev))"
    by simp
  with Cons.IH [of w1] Cons.prems(1) show ?case by (simp add: eq c1)
qed


text \<open>What each \<open>dispatch\<close> is in terms of its loop.\<close>

lemma notify_fst: "fst (notify bus name ev w) = completion (bus name (heap w ev))"
  by (simp add: notify_def Let_def)

lemma notify_snd:
  "calls (snd (notify bus name ev w)) = calls w"
  "disp (snd (notify bus name ev w)) = disp w"
  "heap (snd (notify bus name ev w)) ev =
     (heap w ev)\<lparr>propagationStopped :=
                   propagationStopped (heap w ev) \<or> stops (bus name (heap w ev))\<rparr>"
  by (simp_all add: notify_def Let_def)

lemma simple_dispatch_run:
  assumes "simple_dispatch fuel B ev eventName w = Some (out, w')"
    and "getListeners fuel (Some (resolve eventName (heap w ev))) (disp w) = Some (ls, d')"
  shows "(out = Returned ev \<and> w' = w)
    \<or> (calls w' = calls (snd (doDispatch_loop B (items ls) ev (w\<lparr>disp := d'\<rparr>)))
       \<and> heap w' = heap (snd (doDispatch_loop B (items ls) ev (w\<lparr>disp := d'\<rparr>)))
       \<and> (fst (doDispatch_loop B (items ls) ev (w\<lparr>disp := d'\<rparr>)) = Returned ()
            \<longrightarrow> out = Returned ev))"
proof (cases "hasListeners (Some (resolve eventName (heap w ev))) (disp w)")
  case False
  with assms(1) show ?thesis by (simp add: simple_dispatch_def)
next
  case True
  obtain o1 w1 where loop: "doDispatch_loop B (items ls) ev (w\<lparr>disp := d'\<rparr>) = (o1, w1)"
    by (cases "doDispatch_loop B (items ls) ev (w\<lparr>disp := d'\<rparr>)")
  from assms True loop show ?thesis
    by (cases o1) (auto simp: simple_dispatch_def doDispatch_def)
qed

text \<open>After the call of the bus, the dispatch of the Node dispatcher either has
  thrown, or has returned at once, or has run its loop.\<close>

lemma node_dispatch_run:
  assumes "node_dispatch emit fuel B ev eventName w = Some (out, w')"
    and "getListeners fuel (Some (resolve eventName (heap w ev))) (disp w) = Some (ls, d')"
  shows "w' = snd (notify emit (resolve eventName (heap w ev)) ev w)
    \<or> w' = node_loop B (items ls) (resolve eventName (heap w ev)) (stoppable (heap w ev)) ev
             ((snd (notify emit (resolve eventName (heap w ev)) ev w))\<lparr>disp := d'\<rparr>)"
proof -
  let ?name = "resolve eventName (heap w ev)"
  obtain c w0 where n: "notify emit ?name ev w = (c, w0)" by (cases "notify emit ?name ev w")
  from notify_snd [of emit ?name ev w] n
  have w0: "disp w0 = disp w" "stoppable (heap w0 ev) = stoppable (heap w ev)" by simp_all
  from assms n w0 show ?thesis
    by (cases c) (auto simp: node_dispatch_def Let_def split: if_splits)
qed

lemma browser_dispatch_node_dispatch:
  "browser_dispatch bus fuel B ev eventName w = node_dispatch bus fuel B ev eventName w"
  by (simp add: browser_dispatch_def node_dispatch_def browser_loop_node_loop Let_def
      split: prod.splits completion.splits option.splits)

text \<open>Each \<open>dispatch\<close> returns or throws, for a name that is not the empty string.\<close>

lemma dispatch_total:
  assumes "resolve eventName (heap w ev) \<noteq> []"
  shows "\<exists>out w'. simple_dispatch (Suc n) B ev eventName w = Some (out, w')"
    and "\<exists>out w'. node_dispatch emit (Suc n) B ev eventName w = Some (out, w')"
    and "\<exists>out w'. browser_dispatch dispatchEvent (Suc n) B ev eventName w = Some (out, w')"
  using assms
  by (auto simp: simple_dispatch_def node_dispatch_def browser_dispatch_def Let_def
      getListeners_named split: prod.splits outcome.splits completion.splits)

text \<open>A dispatch of the Node or browser dispatcher returns the event unless the call of
  the bus throws.\<close>

lemma node_dispatch_returns:
  assumes "resolve eventName (heap w ev) \<noteq> []"
    and "\<forall>x. completion (emit (resolve eventName (heap w ev)) (heap w ev)) \<noteq> Throws x"
  shows "\<exists>w'. node_dispatch emit (Suc n) B ev eventName w = Some (Returned ev, w')"
proof -
  let ?name = "resolve eventName (heap w ev)"
  obtain c w0 where nt: "notify emit ?name ev w = (c, w0)" by (cases "notify emit ?name ev w")
  with notify_fst [of emit ?name ev w] assms(2) have "\<forall>x. c \<noteq> Throws x" by simp
  with nt assms(1) show ?thesis
    by (cases c) (auto simp: node_dispatch_def Let_def getListeners_named)
qed


lemma node_dispatch_stop:
  assumes "stoppable (heap w ev)"
    and "node_dispatch bus fuel B ev eventName w = Some (out, w')"
    and "getListeners fuel (Some (resolve eventName (heap w ev))) (disp w) = Some (sl, d')"
  shows "(\<exists>k\<le>length (items sl). calls w' = calls w @ take k (items sl))
    \<and> (propagationStopped (heap w ev) \<longrightarrow> calls w' = calls w)
    \<and> (\<forall>k. k < length (calls w') - length (calls w)
           \<and> stops (call B (items sl ! k) (heap w ev)) \<longrightarrow>
           calls w' = calls w @ take (Suc k) (items sl) \<and> propagationStopped (heap w' ev))"
proof -
  let ?name = "resolve eventName (heap w ev)"
  let ?w0 = "snd (notify bus ?name ev w)"
  let ?w1 = "?w0\<lparr>disp := d'\<rparr>"
  have c0: "calls ?w0 = calls w" by (simp add: notify_snd)
  have h0: "heap ?w0 ev = (heap w ev)\<lparr>propagationStopped :=
                   propagationStopped (heap w ev) \<or> stops (bus ?name (heap w ev))\<rparr>"
    by (simp add: notify_snd)
  have trivial: ?thesis if "calls w' = calls w"
    using that by (simp add: exI [of _ 0])
  from node_dispatch_run [OF assms(2,3)] assms(1)
  have "w' = ?w0 \<or> w' = node_loop B (items sl) ?name True ev ?w1" by simp
  then show ?thesis
  proof
    assume "w' = ?w0"
    with c0 show ?thesis by (intro trivial) simp
  next
    assume loop: "w' = node_loop B (items sl) ?name True ev ?w1"
    show ?thesis
    proof (cases "propagationStopped (heap ?w0 ev)")
      case True
      then have "node_loop B (items sl) ?name True ev ?w1 = ?w1"
        by (intro node_loop_stopped) simp
      with loop c0 show ?thesis by (intro trivial) simp
    next
      case False
      with h0 have ns: "\<not> propagationStopped (heap w ev)" and h1: "heap ?w1 ev = heap w ev"
        by simp_all
      from node_loop_props [of B "items sl" ?name ev ?w1] ns show ?thesis
        unfolding loop [symmetric] h1 by (simp add: c0)
    qed
  qed
qed

text \<open>
  C3. Take any of the three dispatchers, with any native bus, and an event with
  \<open>isPropagationStopped\<close>; let \<open>sortedListeners\<close> be what \<open>getListeners\<close> gives for the
  resolved name. The calls of a dispatch are an initial part of that sequence. If the
  event is stopped when \<open>dispatch\<close> is called, no listener is called. If the listener at
  position \<open>k\<close> was called and called \<open>stopPropagation()\<close>, the calls are exactly the first
  \<open>k + 1\<close> listeners, and the event is stopped in the state the dispatch leaves. For a
  name that is not the empty string the dispatch ends (it returns or throws).
\<close>

theorem stop_propagation:
  assumes "dispatch \<in> {simple_dispatch, node_dispatch emit, browser_dispatch dispatchEvent}"
    and "stoppable (heap w ev)"
    and "dispatch fuel B ev eventName w = Some (out, w')"
    and "getListeners fuel (Some (resolve eventName (heap w ev))) (disp w)
           = Some (sortedListeners, d')"
  shows "(\<exists>k\<le>length (items sortedListeners). calls w' = calls w @ take k (items sortedListeners))
    \<and> (propagationStopped (heap w ev) \<longrightarrow> calls w' = calls w)
    \<and> (\<forall>k. k < length (calls w') - length (calls w)
           \<and> stops (call B (items sortedListeners ! k) (heap w ev)) \<longrightarrow>
           calls w' = calls w @ take (Suc k) (items sortedListeners)
           \<and> propagationStopped (heap w' ev))
    \<and> (resolve eventName (heap w ev) \<noteq> [] \<longrightarrow>
         (\<exists>out w'. dispatch (Suc n) B ev eventName w = Some (out, w')))"
proof -
  let ?ls = "items sortedListeners"
  let ?w0 = "w\<lparr>disp := d'\<rparr>"
  let ?Q = "\<lambda>w'. (\<exists>k\<le>length ?ls. calls w' = calls w @ take k ?ls)
    \<and> (\<forall>k. k < length (calls w') - length (calls w)
           \<and> stops (call B (?ls ! k) (heap w ev)) \<longrightarrow>
           calls w' = calls w @ take (Suc k) ?ls \<and> propagationStopped (heap w' ev))"
  have same: "?Q w" by (simp add: exI [of _ 0])
  have st0: "stoppable (heap ?w0 ev)" using assms(2) by simp
  have simple: "?Q w1" if "calls w1 = calls (snd (doDispatch_loop B ?ls ev ?w0))"
    "heap w1 = heap (snd (doDispatch_loop B ?ls ev ?w0))" for w1
    using doDispatch_loop_props [OF st0, of B ?ls] that by simp
  have simple_stop: "doDispatch_loop B ?ls ev ?w0 = (Returned (), ?w0)"
    if "propagationStopped (heap w ev)"
    using that assms(2) by (intro doDispatch_loop_stopped) simp
  have total: "resolve eventName (heap w ev) \<noteq> [] \<longrightarrow>
         (\<exists>out w'. dispatch (Suc n) B ev eventName w = Some (out, w'))"
  proof
    assume ne: "resolve eventName (heap w ev) \<noteq> []"
    from assms(1) dispatch_total [OF ne]
    show "\<exists>out w'. dispatch (Suc n) B ev eventName w = Some (out, w')" by auto
  qed
  from assms(1) consider "dispatch = simple_dispatch" | "dispatch = node_dispatch emit"
    | "dispatch = browser_dispatch dispatchEvent" by blast
  then have "?Q w' \<and> (propagationStopped (heap w ev) \<longrightarrow> calls w' = calls w)"
  proof cases
    case 1
    with simple_dispatch_run [OF _ assms(4)] assms(3)
    have "(out = Returned ev \<and> w' = w)
      \<or> (calls w' = calls (snd (doDispatch_loop B ?ls ev ?w0))
         \<and> heap w' = heap (snd (doDispatch_loop B ?ls ev ?w0))
         \<and> (fst (doDispatch_loop B ?ls ev ?w0) = Returned () \<longrightarrow> out = Returned ev))"
      by simp
    then show ?thesis
    proof
      assume "out = Returned ev \<and> w' = w"
      with same show ?thesis by simp
    next
      assume a: "calls w' = calls (snd (doDispatch_loop B ?ls ev ?w0))
         \<and> heap w' = heap (snd (doDispatch_loop B ?ls ev ?w0))
         \<and> (fst (doDispatch_loop B ?ls ev ?w0) = Returned () \<longrightarrow> out = Returned ev)"
      then have "?Q w'" by (intro simple) simp_all
      moreover have "calls w' = calls w" if "propagationStopped (heap w ev)"
        using a simple_stop [OF that] by simp
      ultimately show ?thesis by blast
    qed
  next
    case 2
    with assms(3) have "node_dispatch emit fuel B ev eventName w = Some (out, w')" by simp
    from node_dispatch_stop [OF assms(2) this assms(4)] show ?thesis by blast
  next
    case 3
    with assms(3) have "node_dispatch dispatchEvent fuel B ev eventName w = Some (out, w')"
      by (simp add: browser_dispatch_node_dispatch)
    from node_dispatch_stop [OF assms(2) this assms(4)] show ?thesis by blast
  qed
  with total show ?thesis by blast
qed

text \<open>The sort of \<open>sortListeners\<close>: descending, stable, a rearrangement.\<close>

lemma set_insert_by [simp]: "set (insert_by cmp x ys) = insert x (set ys)"
  by (induction ys) auto

lemma length_insert_by [simp]: "length (insert_by cmp x ys) = Suc (length ys)"
  by (induction ys) auto

lemma set_js_sort [simp]: "set (js_sort cmp xs) = set xs"
  by (induction xs) (simp_all add: js_sort_def)

lemma length_js_sort [simp]: "length (js_sort cmp xs) = length xs"
  by (induction xs) (simp_all add: js_sort_def)

lemma js_sort_Cons: "js_sort cmp (x # xs) = insert_by cmp x (js_sort cmp xs)"
  by (simp add: js_sort_def)

lemma descending_insert_by:
  "sorted_wrt (\<lambda>a b. priority b \<le> priority a) ys \<Longrightarrow>
   sorted_wrt (\<lambda>a b. priority b \<le> priority a) (insert_by by_priority x ys)"
  by (induction ys) (auto simp: by_priority_def)

lemma descending_js_sort: "sorted_wrt (\<lambda>a b. priority b \<le> priority a) (js_sort by_priority xs)"
  by (induction xs) (simp_all add: js_sort_def descending_insert_by)

lemma stable_insert_by:
  "filter (\<lambda>e. priority e = p) (insert_by by_priority x ys) = filter (\<lambda>e. priority e = p) (x # ys)"
  by (induction ys) (auto simp: by_priority_def)

lemma stable_js_sort:
  "filter (\<lambda>e. priority e = p) (js_sort by_priority xs) = filter (\<lambda>e. priority e = p) xs"
  by (induction xs) (simp_all add: js_sort_def stable_insert_by)

text \<open>A sequence of \<open>addListener\<close> calls on one name.\<close>

lemma fold_addListener:
  "registered name (fold (\<lambda>(l, p). addListener name l p) adds d) =
     registered name d @ map (\<lambda>(l, p). \<lparr>listener = l, priority = p\<rparr>) adds
   \<and> (adds \<noteq> [] \<longrightarrow> needs_resort name (fold (\<lambda>(l, p). addListener name l p) adds d)
         \<and> map_of (listeners (fold (\<lambda>(l, p). addListener name l p) adds d)) name \<noteq> None)
   \<and> (adds = [] \<longrightarrow> fold (\<lambda>(l, p). addListener name l p) adds d = d)"
proof (induction adds arbitrary: d rule: rev_induct)
  case Nil
  then show ?case by simp
next
  case (snoc a adds)
  obtain l p where a: "a = (l, p)" by (cases a)
  from snoc [of d] show ?case
    by (simp add: a registered_addListener needs_resort_def sorted_flag_addListener
        listeners_addListener)
qed

lemma registered_looked_up:
  assumes "needs_resort name d \<or> map_of (listeners d) name = None"
  shows "registered name (looked_up name d) = js_sort by_priority (registered name d)"
proof (cases "map_of (listeners d) name")
  case None
  then show ?thesis by (simp add: looked_up_def registered_def js_sort_def)
next
  case (Some es)
  with assms show ?thesis by (simp add: looked_up_def registered_sortListeners)
qed

text \<open>The calls of every loop are an initial part of the listeners it is given.\<close>

lemma node_loop_prefix:
  "\<exists>k\<le>length ls. calls (node_loop B ls name st ev w) = calls w @ take k ls"
proof (induction ls arbitrary: w)
  case Nil
  then show ?case by simp
next
  case (Cons l ls)
  show ?case
  proof (cases "st \<and> propagationStopped (heap w ev)")
    case True
    then have "node_loop B (l # ls) name st ev w = w" by (rule node_loop_stopped)
    then show ?thesis by (simp add: exI [of _ 0])
  next
    case False
    from node_loop_step [OF False, of B l ls name]
    obtain w2 where step: "node_loop B (l # ls) name st ev w = node_loop B ls name st ev w2"
      and c2: "calls w2 = calls w @ [l]" by blast
    from Cons.IH [of w2] obtain k where "k \<le> length ls"
      "calls (node_loop B ls name st ev w2) = calls w2 @ take k ls" by blast
    then show ?thesis unfolding step by (intro exI [of _ "Suc k"]) (simp add: c2)
  qed
qed

lemma doDispatch_loop_prefix:
  "\<exists>k\<le>length ls. calls (snd (doDispatch_loop B ls ev w)) = calls w @ take k ls"
proof (induction ls arbitrary: w)
  case Nil
  then show ?case by simp
next
  case (Cons l ls)
  show ?case
  proof (cases "stoppable (heap w ev) \<and> propagationStopped (heap w ev)")
    case True
    then have "doDispatch_loop B (l # ls) ev w = (Returned (), w)"
      by (rule doDispatch_loop_stopped)
    then show ?thesis by (simp add: exI [of _ 0])
  next
    case False
    from doDispatch_loop_step [OF False, of l B ls]
    obtain w1 where c1: "calls w1 = calls w @ [l]"
      and step: "doDispatch_loop B (l # ls) ev w =
         (case completion (call B l (heap w ev)) of
            Throws x \<Rightarrow> (Threw x, w1)
          | _ \<Rightarrow> doDispatch_loop B ls ev w1)"
      by blast
    show ?thesis
    proof (cases "completion (call B l (heap w ev))")
      case (Throws x)
      with step show ?thesis by (intro exI [of _ 1]) (simp add: c1)
    next
      case Returns
      from Cons.IH [of w1] obtain k where "k \<le> length ls"
        "calls (snd (doDispatch_loop B ls ev w1)) = calls w1 @ take k ls" by blast
      with step Returns show ?thesis by (intro exI [of _ "Suc k"]) (simp add: c1)
    next
      case ReturnsPromise
      from Cons.IH [of w1] obtain k where "k \<le> length ls"
        "calls (snd (doDispatch_loop B ls ev w1)) = calls w1 @ take k ls" by blast
      with step ReturnsPromise show ?thesis by (intro exI [of _ "Suc k"]) (simp add: c1)
    qed
  qed
qed

text \<open>What a lookup returns after a sequence of \<open>addListener\<close> calls on a name that is not
  the empty string: the entries in descending order of priority, entries of equal
  priority in the order of their registration.\<close>

lemma lookup_order:
  assumes "name \<noteq> []"
    and "adds \<noteq> [] \<or> map_of (listeners d) name = None"
  shows "let es = registered name d @ map (\<lambda>(l, p). \<lparr>listener = l, priority = p\<rparr>) adds;
             order = js_sort by_priority es
         in sorted_wrt (\<lambda>a b. priority b \<le> priority a) order
          \<and> (\<forall>p. filter (\<lambda>e. priority e = p) order = filter (\<lambda>e. priority e = p) es)
          \<and> getListeners (Suc k) (Some name) (fold (\<lambda>(l, p). addListener name l p) adds d)
              = Some (Array (map listener order),
                  looked_up name (fold (\<lambda>(l, p). addListener name l p) adds d))"
proof -
  define es where "es = registered name d @ map (\<lambda>(l, p). \<lparr>listener = l, priority = p\<rparr>) adds"
  define order where "order = js_sort by_priority es"
  let ?d1 = "fold (\<lambda>(l, p). addListener name l p) adds d"
  from fold_addListener [of name adds d]
  have reg: "registered name ?d1 = es"
    and dirty: "adds \<noteq> [] \<Longrightarrow> needs_resort name ?d1"
    and same: "adds = [] \<Longrightarrow> ?d1 = d"
    by (simp_all add: es_def)
  from assms(2) dirty same have "needs_resort name ?d1 \<or> map_of (listeners ?d1) name = None"
    by (cases "adds = []") auto
  then have ord: "registered name (looked_up name ?d1) = order"
    by (simp add: registered_looked_up reg order_def)
  have c1: "sorted_wrt (\<lambda>a b. priority b \<le> priority a) order"
    unfolding order_def by (rule descending_js_sort)
  have c2: "\<forall>p. filter (\<lambda>e. priority e = p) order = filter (\<lambda>e. priority e = p) es"
    unfolding order_def by (simp add: stable_js_sort)
  have c3: "getListeners (Suc k) (Some name) ?d1
              = Some (Array (map listener order), looked_up name ?d1)"
    using assms(1) by (simp add: getListeners_named ord)
  from c1 c2 c3 show ?thesis
    unfolding Let_def es_def [symmetric] order_def [symmetric] by blast
qed

lemmas dispatch_eval =
  simple_dispatch_def node_dispatch_def browser_dispatch_def doDispatch_def resolve_def
  invoke_def notify_def unused_emitter_def unused_target_def
  doDispatch_loop.simps(2) node_loop.simps(2) browser_loop.simps(2) getListeners.simps(2)

lemma getListeners_empty_name: "getListeners k (Some []) d = getListeners k None d"
  by (cases k) (simp_all add: getListeners_all)

text \<open>With the empty string registered, \<open>dispatch(e, "")\<close> does not return: in the Node and
  browser dispatchers, unless the call of the bus throws first.\<close>

lemma dispatch_empty_name_diverges:
  assumes "[] \<in> fst ` set (listeners (disp w))"
  shows "simple_dispatch fuel B ev (Some []) w = None"
    and "(\<forall>x. completion (bus [] (heap w ev)) \<noteq> Throws x) \<Longrightarrow>
         node_dispatch bus fuel B ev (Some []) w = None"
    and "(\<forall>x. completion (bus [] (heap w ev)) \<noteq> Throws x) \<Longrightarrow>
         browser_dispatch bus fuel B ev (Some []) w = None"
proof -
  from assms have "listeners (disp w) \<noteq> []" by auto
  then have has: "hasListeners (Some []) (disp w)" by (simp add: hasListeners_global)
  from assms have gl: "getListeners fuel (Some []) (disp w) = None"
    by (simp add: getListeners_diverges)
  from has gl show "simple_dispatch fuel B ev (Some []) w = None"
    by (simp add: simple_dispatch_def resolve_def)
  show node: "node_dispatch bus fuel B ev (Some []) w = None"
    if "\<forall>x. completion (bus [] (heap w ev)) \<noteq> Throws x" for bus
  proof -
    obtain c w0 where n: "notify bus [] ev w = (c, w0)" by (cases "notify bus [] ev w")
    from notify_fst [of bus "[]" ev w] notify_snd(2) [of bus "[]" ev w] n that
    have "\<forall>x. c \<noteq> Throws x" and "disp w0 = disp w" by simp_all
    with has gl n show ?thesis
      by (cases c) (simp_all add: node_dispatch_def resolve_def)
  qed
  show "browser_dispatch bus fuel B ev (Some []) w = None"
    if "\<forall>x. completion (bus [] (heap w ev)) \<noteq> Throws x"
    using node [where bus = bus, OF that] by (simp add: browser_dispatch_node_dispatch)
qed

theorem stop_propagation_witness:
  "\<exists>out w'. node_dispatch unused_emitter (Suc 0)
       (\<lambda>l e. \<lparr>stops = (l = 8), completion = Returns\<rparr>) 0 (Some ''x'')
       \<lparr>disp = addListener ''x'' 8 5 (addListener ''x'' 7 10 (addListener ''x'' 9 0 new_dispatcher)),
        heap = (\<lambda>r. \<lparr>constructor_name = ''BaseEvent'', stoppable = True,
                      propagationStopped = False\<rparr>),
        calls = [], console_error = [], console_log = []\<rparr> = Some (out, w')
     \<and> out = Returned 0 \<and> calls w' = [Fn 7, Fn 8] \<and> propagationStopped (heap w' 0)"
proof -
  let ?B = "\<lambda>(l::nat) (e::event). \<lparr>stops = (l = 8), completion = Returns\<rparr>"
  let ?d = "addListener ''x'' 8 5 (addListener ''x'' 7 10 (addListener ''x'' 9 0 new_dispatcher))"
  let ?w = "\<lparr>disp = ?d,
        heap = (\<lambda>r::nat. \<lparr>constructor_name = ''BaseEvent'', stoppable = True,
                      propagationStopped = False\<rparr>),
        calls = [], console_error = [], console_log = []\<rparr>"
  have mem: "node_dispatch unused_emitter
      \<in> {simple_dispatch, node_dispatch unused_emitter, browser_dispatch unused_target}"
    by simp
  have st: "stoppable (heap ?w 0)" by simp
  have gl: "getListeners (Suc 0) (Some (resolve (Some ''x'') (heap ?w 0))) (disp ?w)
            = Some (Array [7, 8, 9], looked_up ''x'' ?d)"
    by (simp add: resolve_def getListeners_named registry_eval)
  obtain out w' where run: "node_dispatch unused_emitter (Suc 0) ?B 0 (Some ''x'') ?w = Some (out, w')"
    using dispatch_total(2) [of "Some ''x''" ?w 0 unused_emitter 0 ?B] by (auto simp: resolve_def)
  from run have len: "calls w' = [Fn 7, Fn 8]" and out: "out = Returned 0"
    by (auto simp: dispatch_eval registry_eval)
  from stop_propagation [OF mem st run gl, of 0]
  have "\<forall>k. k < length (calls w') - length (calls ?w)
           \<and> stops (call ?B (items (Array [7, 8, 9]) ! k) (heap ?w 0)) \<longrightarrow>
           calls w' = calls ?w @ take (Suc k) (items (Array [7, 8, 9]))
           \<and> propagationStopped (heap w' 0)"
    by blast
  from this [rule_format, of 1] len have "propagationStopped (heap w' 0)" by simp
  with run len out show ?thesis by blast
qed

section \<open>Listeners that throw, the empty name and the name of Node's error event\<close>

text \<open>
  C1 on the code. With a listener of priority 10 that throws and a listener of priority
  0 under one name, \<open>SimpleEventDispatcher.dispatch\<close> ends by throwing the listener's error
  after one call: the second listener is not called. \<open>NodeEventDispatcher.dispatch\<close>, on
  the same input, returns the event, calls both listeners and reports the error once.
\<close>

theorem simple_dispatch_throw_escapes:
  "(\<exists>w'. simple_dispatch (Suc 0)
            (\<lambda>l e. \<lparr>stops = False,
                     completion = (if l = 7 then Throws (Error ''Listener error'') else Returns)\<rparr>)
            0 (Some ''test.event'')
            \<lparr>disp = addListener ''test.event'' 8 0 (addListener ''test.event'' 7 10 new_dispatcher),
             heap = (\<lambda>r. \<lparr>constructor_name = ''BaseEvent'', stoppable = True,
                           propagationStopped = False\<rparr>),
             calls = [], console_error = [], console_log = []\<rparr>
          = Some (Threw (Error ''Listener error''), w') \<and> calls w' = [Fn 7])
   \<and> (\<exists>w'. node_dispatch unused_emitter (Suc 0)
            (\<lambda>l e. \<lparr>stops = False,
                     completion = (if l = 7 then Throws (Error ''Listener error'') else Returns)\<rparr>)
            0 (Some ''test.event'')
            \<lparr>disp = addListener ''test.event'' 8 0 (addListener ''test.event'' 7 10 new_dispatcher),
             heap = (\<lambda>r. \<lparr>constructor_name = ''BaseEvent'', stoppable = True,
                           propagationStopped = False\<rparr>),
             calls = [], console_error = [], console_log = []\<rparr>
          = Some (Returned 0, w') \<and> calls w' = [Fn 7, Fn 8]
            \<and> console_error w' = [(''test.event'', Error ''Listener error'')])"
  by (simp add: dispatch_eval registry_eval)

text \<open>
  C2 on the code. A listener registered under the empty string is never called by
  \<open>dispatch(e, "")\<close>, which returns in none of the three dispatchers, at any depth of the
  lookup. A listener registered under \<open>error\<close> in a \<open>NodeEventDispatcher\<close> whose emitter has
  no listener is not called by \<open>dispatch(e, "error")\<close>: the dispatch ends with the error
  that \<open>emit\<close> throws before the loop.
\<close>

theorem dispatch_skips_listeners:
  "getListenerPriority [] 7 (addListener [] 7 0 new_dispatcher) = Some 0
   \<and> \<not> (\<exists>fuel out w'.
          simple_dispatch fuel (\<lambda>l e. \<lparr>stops = False, completion = Returns\<rparr>) 0 (Some [])
            \<lparr>disp = addListener [] 7 0 new_dispatcher,
             heap = (\<lambda>r. \<lparr>constructor_name = ''BaseEvent'', stoppable = True,
                           propagationStopped = False\<rparr>),
             calls = [], console_error = [], console_log = []\<rparr> = Some (out, w'))
   \<and> \<not> (\<exists>fuel out w'.
          node_dispatch unused_emitter fuel (\<lambda>l e. \<lparr>stops = False, completion = Returns\<rparr>) 0
            (Some [])
            \<lparr>disp = addListener [] 7 0 new_dispatcher,
             heap = (\<lambda>r. \<lparr>constructor_name = ''BaseEvent'', stoppable = True,
                           propagationStopped = False\<rparr>),
             calls = [], console_error = [], console_log = []\<rparr> = Some (out, w'))
   \<and> \<not> (\<exists>fuel out w'.
          browser_dispatch unused_target fuel (\<lambda>l e. \<lparr>stops = False, completion = Returns\<rparr>) 0
            (Some [])
            \<lparr>disp = addListener [] 7 0 new_dispatcher,
             heap = (\<lambda>r. \<lparr>constructor_name = ''BaseEvent'', stoppable = True,
                           propagationStopped = False\<rparr>),
             calls = [], console_error = [], console_log = []\<rparr> = Some (out, w'))
   \<and> getListenerPriority ''error'' 7 (addListener ''error'' 7 0 new_dispatcher) = Some 0
   \<and> (\<exists>w'. node_dispatch unused_emitter (Suc 0)
              (\<lambda>l e. \<lparr>stops = False, completion = Returns\<rparr>) 0 (Some ''error'')
              \<lparr>disp = addListener ''error'' 7 0 new_dispatcher,
               heap = (\<lambda>r. \<lparr>constructor_name = ''BaseEvent'', stoppable = True,
                             propagationStopped = False\<rparr>),
               calls = [], console_error = [], console_log = []\<rparr>
            = Some (Threw (Error ''ERR_UNHANDLED_ERROR''), w') \<and> calls w' = [])"
proof -
  let ?w = "\<lparr>disp = addListener [] 7 0 new_dispatcher,
             heap = (\<lambda>r::nat. \<lparr>constructor_name = ''BaseEvent'', stoppable = True,
                           propagationStopped = False\<rparr>),
             calls = [], console_error = [], console_log = []\<rparr>"
  have reg: "[] \<in> fst ` set (listeners (disp ?w))" by (simp add: registry_eval)
  have e: "\<forall>x. completion (unused_emitter [] (heap ?w 0)) \<noteq> Throws x"
    by (simp add: unused_emitter_def)
  have t: "\<forall>x. completion (unused_target [] (heap ?w 0)) \<noteq> Throws x"
    by (simp add: unused_target_def)
  have "getListenerPriority [] 7 (addListener [] 7 0 new_dispatcher) = Some 0"
    "getListenerPriority ''error'' 7 (addListener ''error'' 7 0 new_dispatcher) = Some 0"
    by (simp_all add: registry_eval)
  moreover have "\<exists>w'. node_dispatch unused_emitter (Suc 0)
              (\<lambda>l e. \<lparr>stops = False, completion = Returns\<rparr>) 0 (Some ''error'')
              \<lparr>disp = addListener ''error'' 7 0 new_dispatcher,
               heap = (\<lambda>r. \<lparr>constructor_name = ''BaseEvent'', stoppable = True,
                             propagationStopped = False\<rparr>),
               calls = [], console_error = [], console_log = []\<rparr>
            = Some (Threw (Error ''ERR_UNHANDLED_ERROR''), w') \<and> calls w' = []"
    by (simp add: dispatch_eval registry_eval)
  ultimately show ?thesis
    using dispatch_empty_name_diverges(1) [OF reg]
      dispatch_empty_name_diverges(2) [where bus = unused_emitter, OF reg e]
      dispatch_empty_name_diverges(3) [where bus = unused_target, OF reg t]
    by simp
qed

text \<open>
  C4 on the code. \<open>SimpleEventDispatcher.dispatch\<close> does not return the event when a
  listener throws: the call ends with the listener's error. With a listener registered
  under the empty string, \<open>dispatch(e, "")\<close> returns in none of the three dispatchers, at
  any depth of the lookup and whatever the listeners do.
\<close>

theorem dispatch_return_fails:
  "(\<exists>w'. simple_dispatch (Suc 0)
            (\<lambda>l e. \<lparr>stops = False, completion = Throws (Error ''Listener error'')\<rparr>)
            0 (Some ''test.event'')
            \<lparr>disp = addListener ''test.event'' 7 0 new_dispatcher,
             heap = (\<lambda>r. \<lparr>constructor_name = ''BaseEvent'', stoppable = True,
                           propagationStopped = False\<rparr>),
             calls = [], console_error = [], console_log = []\<rparr>
          = Some (Threw (Error ''Listener error''), w'))
   \<and> (\<forall>fuel B. simple_dispatch fuel B 0 (Some [])
            \<lparr>disp = addListener [] 7 0 new_dispatcher,
             heap = (\<lambda>r. \<lparr>constructor_name = ''BaseEvent'', stoppable = True,
                           propagationStopped = False\<rparr>),
             calls = [], console_error = [], console_log = []\<rparr> = None)
   \<and> (\<forall>fuel B. node_dispatch unused_emitter fuel B 0 (Some [])
            \<lparr>disp = addListener [] 7 0 new_dispatcher,
             heap = (\<lambda>r. \<lparr>constructor_name = ''BaseEvent'', stoppable = True,
                           propagationStopped = False\<rparr>),
             calls = [], console_error = [], console_log = []\<rparr> = None)
   \<and> (\<forall>fuel B. browser_dispatch unused_target fuel B 0 (Some [])
            \<lparr>disp = addListener [] 7 0 new_dispatcher,
             heap = (\<lambda>r. \<lparr>constructor_name = ''BaseEvent'', stoppable = True,
                           propagationStopped = False\<rparr>),
             calls = [], console_error = [], console_log = []\<rparr> = None)"
proof -
  let ?w = "\<lparr>disp = addListener [] 7 0 new_dispatcher,
             heap = (\<lambda>r::nat. \<lparr>constructor_name = ''BaseEvent'', stoppable = True,
                           propagationStopped = False\<rparr>),
             calls = [], console_error = [], console_log = []\<rparr>"
  have reg: "[] \<in> fst ` set (listeners (disp ?w))" by (simp add: registry_eval)
  have e: "\<forall>x. completion (unused_emitter [] (heap ?w 0)) \<noteq> Throws x"
    by (simp add: unused_emitter_def)
  have t: "\<forall>x. completion (unused_target [] (heap ?w 0)) \<noteq> Throws x"
    by (simp add: unused_target_def)
  have "\<exists>w'. simple_dispatch (Suc 0)
            (\<lambda>l e. \<lparr>stops = False, completion = Throws (Error ''Listener error'')\<rparr>)
            0 (Some ''test.event'')
            \<lparr>disp = addListener ''test.event'' 7 0 new_dispatcher,
             heap = (\<lambda>r. \<lparr>constructor_name = ''BaseEvent'', stoppable = True,
                           propagationStopped = False\<rparr>),
             calls = [], console_error = [], console_log = []\<rparr>
          = Some (Threw (Error ''Listener error''), w')"
    by (simp add: dispatch_eval registry_eval)
  with dispatch_empty_name_diverges(1) [OF reg]
    dispatch_empty_name_diverges(2) [where bus = unused_emitter, OF reg e]
      dispatch_empty_name_diverges(3) [where bus = unused_target, OF reg t]
  show ?thesis by simp
qed

text \<open>
  C8 on the code. With a listener left under \<open>a\<close>, after \<open>removeListener\<close> has removed the
  only listener under \<open>""\<close>, \<open>hasListeners("")\<close> is true, although \<open>""\<close> is no longer a
  registered name: the test \<open>if (eventName)\<close> sends the empty string to the global test.
  For the name \<open>b\<close> in the same place \<open>hasListeners("b")\<close> is false.
\<close>

theorem hasListeners_empty_name_after_removal:
  "map_of (listeners (addListener [] 8 0 (addListener ''a'' 7 0 new_dispatcher))) []
     = Some [\<lparr>listener = 8, priority = 0\<rparr>]
   \<and> map_of (listeners
        (removeListener [] 8 (addListener [] 8 0 (addListener ''a'' 7 0 new_dispatcher)))) []
       = None
   \<and> hasListeners (Some [])
       (removeListener [] 8 (addListener [] 8 0 (addListener ''a'' 7 0 new_dispatcher)))
   \<and> \<not> hasListeners (Some ''b'')
       (removeListener ''b'' 8 (addListener ''b'' 8 0 (addListener ''a'' 7 0 new_dispatcher)))"
  by (simp add: registry_eval)

text \<open>
  C10 on the code. After \<open>addListener("", f)\<close> the listener is stored under \<open>""\<close> and
  \<open>getListenerPriority("", f)\<close> finds it; \<open>hasListeners("")\<close> is the global test; and
  \<open>getListeners("")\<close>, like \<open>getListeners()\<close>, does not return at any depth, since the loop
  over the registered names calls \<open>getListeners("")\<close> again. When \<open>""\<close> is not registered,
  \<open>getListeners("")\<close> returns the mapping of all names.
\<close>

theorem empty_name_lookup:
  "map_of (listeners (addListener [] 7 0 new_dispatcher)) [] = Some [\<lparr>listener = 7, priority = 0\<rparr>]
   \<and> getListenerPriority [] 7 (addListener [] 7 0 new_dispatcher) = Some 0
   \<and> hasListeners (Some []) (addListener [] 7 0 new_dispatcher)
       = hasListeners None (addListener [] 7 0 new_dispatcher)
   \<and> (\<forall>fuel. getListeners fuel (Some []) (addListener [] 7 0 new_dispatcher) = None)
   \<and> (\<forall>fuel. getListeners fuel None (addListener [] 7 0 new_dispatcher) = None)
   \<and> (\<exists>d'. getListeners (Suc (Suc 0)) (Some []) (addListener ''a'' 7 0 new_dispatcher)
              = Some (AllListeners [(''a'', Array [7])], d'))"
proof -
  have reg: "[] \<in> fst ` set (listeners (addListener [] 7 0 new_dispatcher))"
    by (simp add: registry_eval)
  have "\<exists>d'. getListeners (Suc (Suc 0)) (Some []) (addListener ''a'' 7 0 new_dispatcher)
              = Some (AllListeners [(''a'', Array [7])], d')"
    by (simp add: getListeners.simps(2) registry_eval)
  moreover have "map_of (listeners (addListener [] 7 0 new_dispatcher)) []
      = Some [\<lparr>listener = 7, priority = 0\<rparr>]"
    "getListenerPriority [] 7 (addListener [] 7 0 new_dispatcher) = Some 0"
    "hasListeners (Some []) (addListener [] 7 0 new_dispatcher)
       = hasListeners None (addListener [] 7 0 new_dispatcher)"
    by (simp_all add: registry_eval)
  ultimately show ?thesis using getListeners_diverges [OF reg] by simp
qed

section \<open>Claims on lookups and removal\<close>

text \<open>
  C9. \<open>getListenerPriority(eventName, callback)\<close> returns the priority stored with the
  first entry under that name whose callback is the given one, whatever its sign, and
  \<open>null\<close> exactly when the name has no entries or no entry has that callback; after
  \<open>addListener(eventName, callback, p)\<close> of a callback not yet registered under the name
  it returns \<open>p\<close>.
\<close>

theorem getListenerPriority_stored:
  "(getListenerPriority eventName l d = None \<longleftrightarrow>
      (case map_of (listeners d) eventName of
         None \<Rightarrow> True
       | Some es \<Rightarrow> l \<notin> listener ` set es))
   \<and> (\<forall>p. getListenerPriority eventName l d = Some p \<longrightarrow>
         (\<exists>es i. map_of (listeners d) eventName = Some es \<and> i < length es
            \<and> listener (es ! i) = l \<and> priority (es ! i) = p
            \<and> (\<forall>j < i. listener (es ! j) \<noteq> l)))
   \<and> (\<forall>p. getListenerPriority eventName l d = None \<longrightarrow>
         getListenerPriority eventName l (addListener eventName l p d) = Some p)"
proof (intro conjI allI impI)
  show "getListenerPriority eventName l d = None \<longleftrightarrow>
      (case map_of (listeners d) eventName of
         None \<Rightarrow> True
       | Some es \<Rightarrow> l \<notin> listener ` set es)"
    by (simp add: getListenerPriority_def find_listener_None [symmetric]
        split: option.splits)
next
  fix p
  assume "getListenerPriority eventName l d = Some p"
  then obtain es found where es: "map_of (listeners d) eventName = Some es"
    and f: "find (\<lambda>item. listener item = l) es = Some found" and p: "priority found = p"
    by (auto simp: getListenerPriority_def split: option.splits)
  from f obtain i where "i < length es" "listener (es ! i) = l" "found = es ! i"
    "\<forall>j < i. listener (es ! j) \<noteq> l"
    by (auto simp: find_Some_iff)
  with es p show "\<exists>es i. map_of (listeners d) eventName = Some es \<and> i < length es
            \<and> listener (es ! i) = l \<and> priority (es ! i) = p
            \<and> (\<forall>j < i. listener (es ! j) \<noteq> l)"
    by blast
next
  fix p
  assume none: "getListenerPriority eventName l d = None"
  have app: "find P (xs @ [x]) = Some x" if "find P xs = None" "P x" for P xs and x :: entry
    using that by (induction xs) (auto split: if_splits)
  show "getListenerPriority eventName l (addListener eventName l p d) = Some p"
  proof (cases "map_of (listeners d) eventName")
    case None
    then show ?thesis
      by (simp add: getListenerPriority_def addListener_def Let_def map_of_map_entry
          update_conv')
  next
    case (Some es)
    with none have "find (\<lambda>item. listener item = l) es = None"
      by (auto simp: getListenerPriority_def split: option.splits)
    then have "find (\<lambda>item. listener item = l) (es @ [\<lparr>listener = l, priority = p\<rparr>])
               = Some \<lparr>listener = l, priority = p\<rparr>"
      by (rule app) simp
    with Some show ?thesis
      by (simp add: getListenerPriority_def addListener_def Let_def map_of_map_entry)
  qed
qed

theorem getListenerPriority_stored_witness:
  "getListenerPriority ''a'' 7 (addListener ''a'' 7 (- 3) new_dispatcher) = Some (- 3)
   \<and> getListenerPriority ''a'' 7 new_dispatcher = None
   \<and> getListenerPriority ''a'' 7 (addListener ''a'' 7 0 new_dispatcher) = Some 0
   \<and> getListenerPriority ''a'' 8 (addListener ''a'' 7 0 new_dispatcher) = None"
proof -
  have n: "getListenerPriority ''a'' 7 new_dispatcher = None"
    by (simp add: getListenerPriority_def new_dispatcher_def)
  have n8: "getListenerPriority ''a'' 8 (addListener ''a'' 7 0 new_dispatcher) = None"
    using getListenerPriority_stored [of "''a''" 8 "addListener ''a'' 7 0 new_dispatcher"]
    by (simp add: addListener_def new_dispatcher_def Let_def)
  from n n8 getListenerPriority_stored [of "''a''" 7 new_dispatcher]
  show ?thesis by simp
qed

text \<open>
  C7. \<open>removeListener(eventName, callback)\<close> for a name that is not registered, or for a
  callback that no entry under the name holds (never registered, or removed before),
  returns normally and leaves the dispatcher as it was.
\<close>

theorem removeListener_absent_noop:
  assumes "wf d"
    and "map_of (listeners d) eventName = None
         \<or> (\<exists>es. map_of (listeners d) eventName = Some es \<and> l \<notin> listener ` set es)"
  shows "removeListener eventName l d = d"
proof (cases "map_of (listeners d) eventName")
  case None
  then show ?thesis by (simp add: removeListener_def)
next
  case (Some es)
  with assms(2) have "l \<notin> listener ` set es" by auto
  then have "findIndex (\<lambda>item. listener item = l) es = - 1"
    by (auto simp: findIndex_none)
  moreover from assms(1) Some have "es \<noteq> []" by (rule map_of_wf)
  ultimately show ?thesis using Some by (simp add: removeListener_def Let_def)
qed

theorem removeListener_absent_noop_witness:
  "wf (addListener ''a'' 7 5 new_dispatcher)
   \<and> removeListener ''b'' 7 (addListener ''a'' 7 5 new_dispatcher)
       = addListener ''a'' 7 5 new_dispatcher
   \<and> removeListener ''a'' 8 (addListener ''a'' 7 5 new_dispatcher)
       = addListener ''a'' 7 5 new_dispatcher
   \<and> removeListener ''a'' 7 (removeListener ''a'' 7 (addListener ''a'' 7 5 new_dispatcher))
       = removeListener ''a'' 7 (addListener ''a'' 7 5 new_dispatcher)"
proof -
  let ?d = "addListener ''a'' 7 5 new_dispatcher"
  have w: "wf ?d"
    by (simp add: wf_def addListener_def new_dispatcher_def Let_def)
  have l: "listeners ?d = [(''a'', [\<lparr>listener = 7, priority = 5\<rparr>])]"
    by (simp add: addListener_def new_dispatcher_def Let_def)
  have r: "listeners (removeListener ''a'' 7 ?d) = []"
    by (simp add: removeListener_def l Let_def splice1_def)
  have w2: "wf (removeListener ''a'' 7 ?d)"
    by (simp add: wf_def r)
  have a: "removeListener ''b'' 7 ?d = ?d"
    using removeListener_absent_noop [OF w, of "''b''" 7] by (simp add: l)
  have b: "removeListener ''a'' 8 ?d = ?d"
    using removeListener_absent_noop [OF w, of "''a''" 8] by (simp add: l)
  have c: "removeListener ''a'' 7 (removeListener ''a'' 7 ?d) = removeListener ''a'' 7 ?d"
    using removeListener_absent_noop [OF w2, of "''a''" 7] by (simp add: r)
  from w a b c show ?thesis by simp
qed

end
